theory Spec2Isabelle
  imports Complex_Main "HOL-Library.Word" "HOL-Library.Sublist" "HOL-Library.Log_Nat"
    "HOL-Library.Monad_Syntax"
begin

unbundle bit_operations_syntax

section \<open>Data model (src/App.tsx, src/components/PrizeFormModal.tsx)\<close>

text \<open>
  A JavaScript string is a sequence of UTF-16 code units. String literals of the source
  that are plain ASCII are written through \<open>js\<close>; the Japanese literals are written as
  their code units.
\<close>

type_synonym js_string = "16 word list"

definition js :: "string \<Rightarrow> js_string" where
  "js s = map of_char s"

text \<open>
  The \<open>Prize\<close> interface (its declaration, \<open>types.ts\<close>, is not among the sources; the
  fields are the ones \<open>handleSubmit\<close> writes). \<open>quantity\<close> is a JavaScript number, modelled
  on its integer values. \<open>photo\<close> and \<open>notes\<close> are optional: \<open>None\<close> is an absent
  (\<open>undefined\<close>) field. \<open>category\<close> and \<open>manufacturer\<close> are strings at run time; the
  literal unions of the type-checker are not enforced on imported data.
\<close>

record prize =
  prize_id :: js_string
  name :: js_string
  quantity :: int
  acquisitionDate :: js_string
  category :: js_string
  manufacturer :: js_string
  photo :: "js_string option"
  prize_notes :: "js_string option"

datatype save_status = Idle | Saving | Saved

text \<open>
  A pending \<open>setTimeout\<close> callback of \<open>handleSaveToStorage\<close>: the save callback, with the
  collection that its closure captured, or the callback that resets the status.
\<close>

datatype timer = SaveTimer "prize list" | StatusTimer

text \<open>
  The state of the \<open>App\<close> component that the handlers read and write, together with the
  \<open>localStorage\<close> of the page (a map from keys to values) and the pending timers. The type
  of the elements of the collection is a parameter: the component declares \<open>Prize[]\<close>
  (\<open>app_state\<close>), and an import can store an array of any parsed values.
\<close>

record 'p component_state =
  prizes :: "'p list"
  isModalOpen :: bool
  prizeToEdit :: "prize option"
  isDirty :: bool
  saveStatus :: save_status
  showTools :: bool
  localStorage :: "js_string \<rightharpoonup> js_string"
  timers :: "timer list"

type_synonym app_state = "prize component_state"

section \<open>Store operations (src/App.tsx)\<close>

text \<open>\<open>Array.prototype.findIndex\<close>: the first index whose element satisfies \<open>P\<close>, or \<open>-1\<close>.\<close>

fun findIndex :: "('a \<Rightarrow> bool) \<Rightarrow> 'a list \<Rightarrow> int" where
  "findIndex P [] = - 1"
| "findIndex P (x # xs) =
     (if P x then 0 else (let i = findIndex P xs in if i = - 1 then - 1 else i + 1))"

text \<open>The updater function that \<open>handleSavePrize\<close> passes to \<open>setPrizes\<close>.\<close>

definition savePrize_updater :: "prize \<Rightarrow> prize list \<Rightarrow> prize list" where
  "savePrize_updater prize prevPrizes =
     (let existingIndex = findIndex (\<lambda>p. prize_id p = prize_id prize) prevPrizes
      in if existingIndex > - 1 then prevPrizes[nat existingIndex := prize]
         else prevPrizes @ [prize])"

definition handleSavePrize :: "prize \<Rightarrow> app_state \<Rightarrow> app_state" where
  "handleSavePrize prize s = s\<lparr>prizes := savePrize_updater prize (prizes s), isDirty := True\<rparr>"

text \<open>A sequence of calls of \<open>handleSavePrize\<close>, one for each record of \<open>rs\<close>, in order.\<close>

definition upsert_all :: "app_state \<Rightarrow> prize list \<Rightarrow> app_state" where
  "upsert_all s rs = foldl (\<lambda>s r. handleSavePrize r s) s rs"

text \<open>\<open>handleDeletePrize\<close>; \<open>confirmed\<close> is the answer of the \<open>confirm\<close> dialog.\<close>

definition handleDeletePrize :: "js_string \<Rightarrow> bool \<Rightarrow> app_state \<Rightarrow> app_state" where
  "handleDeletePrize prizeId confirmed s =
     (if confirmed
      then s\<lparr>prizes := filter (\<lambda>p. prize_id p \<noteq> prizeId) (prizes s), isDirty := True\<rparr>
      else s)"

definition quantityChange_updater :: "js_string \<Rightarrow> int \<Rightarrow> prize list \<Rightarrow> prize list" where
  "quantityChange_updater prizeId newQuantity prevPrizes =
     map (\<lambda>p. if prize_id p = prizeId then p\<lparr>quantity := newQuantity\<rparr> else p) prevPrizes"

definition handleQuantityChange :: "js_string \<Rightarrow> int \<Rightarrow> app_state \<Rightarrow> app_state" where
  "handleQuantityChange prizeId newQuantity s =
     s\<lparr>prizes := quantityChange_updater prizeId newQuantity (prizes s), isDirty := True\<rparr>"

definition handleClearAll :: "bool \<Rightarrow> app_state \<Rightarrow> app_state" where
  "handleClearAll confirmed s =
     (if confirmed then s\<lparr>prizes := [], isDirty := True, showTools := False\<rparr> else s)"

section \<open>Concrete records used at the witnesses\<close>

definition prize_A :: prize where
  "prize_A = \<lparr>prize_id = js ''1'', name = js ''A'', quantity = 2,
     acquisitionDate = js ''2024-01-01'', category = js ''c'', manufacturer = js ''m'',
     photo = Some [], prize_notes = Some (js ''n'')\<rparr>"

definition prize_B :: prize where
  "prize_B = \<lparr>prize_id = js ''2'', name = js ''B'', quantity = 3,
     acquisitionDate = js ''2024-02-01'', category = js ''c'', manufacturer = js ''m'',
     photo = None, prize_notes = None\<rparr>"

definition store_AB :: app_state where
  "store_AB = \<lparr>prizes = [prize_A, prize_B], isModalOpen = False, prizeToEdit = None,
     isDirty = False, saveStatus = Idle, showTools = False, localStorage = Map.empty,
     timers = []\<rparr>"


section \<open>Statistics (src/App.tsx, \<open>stats\<close>)\<close>

text \<open>
  The four categories, \<open>prizeCategories\<close>, as UTF-16 code units
  (U+30DE U+30B9 U+30B3 U+30C3 U+30C8, and so on).
\<close>

definition cat_mascot :: js_string where
  "cat_mascot = [0x30DE, 0x30B9, 0x30B3, 0x30C3, 0x30C8]"

definition cat_plush :: js_string where
  "cat_plush = [0x306C, 0x3044, 0x3050, 0x308B, 0x307F]"

definition cat_figure :: js_string where
  "cat_figure = [0x30D5, 0x30A3, 0x30AE, 0x30E5, 0x30A2]"

definition cat_other :: js_string where
  "cat_other = [0x305D, 0x306E, 0x4ED6]"

definition prizeCategories :: "js_string list" where
  "prizeCategories = [cat_mascot, cat_plush, cat_figure, cat_other]"

text \<open>
  Addition of JavaScript numbers is addition of doubles: the exact sum, rounded to the
  nearest double, ties to the even significand. On integers: an integer of magnitude up to
  \<open>2^53\<close> is a double; a larger one lies between multiples of \<open>u = 2^(b - 53)\<close>, where \<open>b\<close>
  is its bit length, and is rounded to the nearest of them. (Sums beyond the range of a
  double, about \<open>1.8 * 10^308\<close>, are not modelled.)
\<close>

definition double_of_int :: "int \<Rightarrow> int" where
  "double_of_int n =
     (if \<bar>n\<bar> \<le> 9007199254740992 then n
      else (let u = 2 ^ nat (bitlen \<bar>n\<bar> - 53); m = \<bar>n\<bar> div u; r = \<bar>n\<bar> mod u
            in sgn n * u * (if 2 * r < u then m
                            else if u < 2 * r then m + 1
                            else if even m then m else m + 1)))"

definition js_add :: "int \<Rightarrow> int \<Rightarrow> int" where
  "js_add a b = double_of_int (a + b)"

text \<open>
  \<open>categoryCount\<close> is a plain object used as a dictionary. A value read from it is a
  number, or the property of \<open>Object.prototype\<close> that the key names when the dictionary
  has no entry of its own for it (\<open>Inherited\<close>), or the string that \<open>+\<close> makes of such a
  property and a quantity (\<open>Str\<close>; its text is not modelled).
\<close>

datatype dict_value = Num int | Str | Inherited

definition inherited_keys :: "js_string list" where
  "inherited_keys =
     [js ''constructor'', js ''__defineGetter__'', js ''__defineSetter__'',
      js ''hasOwnProperty'', js ''__lookupGetter__'', js ''__lookupSetter__'',
      js ''isPrototypeOf'', js ''propertyIsEnumerable'', js ''toString'', js ''valueOf'',
      js ''__proto__'', js ''toLocaleString'']"

text \<open>The read \<open>acc[k]\<close>; \<open>None\<close> is \<open>undefined\<close>.\<close>

definition dict_read :: "(js_string \<rightharpoonup> dict_value) \<Rightarrow> js_string \<Rightarrow> dict_value option" where
  "dict_read acc k =
     (case acc k of
        Some v \<Rightarrow> Some v
      | None \<Rightarrow> if k \<in> set inherited_keys then Some Inherited else None)"

text \<open>
  The write \<open>acc[k] = v\<close>: it creates or replaces the entry, except for the key
  \<open>__proto__\<close>, whose setter ignores a value that is not an object.
\<close>

definition dict_write ::
  "(js_string \<rightharpoonup> dict_value) \<Rightarrow> js_string \<Rightarrow> dict_value \<Rightarrow> (js_string \<rightharpoonup> dict_value)" where
  "dict_write acc k v = (if k = js ''__proto__'' then acc else acc(k \<mapsto> v))"

text \<open>The expression \<open>v || 0\<close>: 0 replaces \<open>undefined\<close> and the number 0.\<close>

definition or_zero :: "dict_value option \<Rightarrow> dict_value" where
  "or_zero v =
     (case v of
        None \<Rightarrow> Num 0
      | Some (Num n) \<Rightarrow> Num (if n = 0 then 0 else n)
      | Some Str \<Rightarrow> Str
      | Some Inherited \<Rightarrow> Inherited)"

text \<open>The expression \<open>v + p.quantity\<close>: a sum of numbers, otherwise a string.\<close>

definition plus_quantity :: "dict_value \<Rightarrow> int \<Rightarrow> dict_value" where
  "plus_quantity v q = (case v of Num n \<Rightarrow> Num (js_add n q) | Str \<Rightarrow> Str | Inherited \<Rightarrow> Str)"

text \<open>The value of the memo.\<close>

record stats_result =
  totalTypes :: nat
  totalQuantity :: int
  categoryCount :: "js_string \<rightharpoonup> dict_value"

text \<open>The two callbacks of \<open>reduce\<close>; the dictionary starts as \<open>{}\<close>.\<close>

definition quantity_step :: "int \<Rightarrow> prize \<Rightarrow> int" where
  "quantity_step acc p = js_add acc (quantity p)"

definition category_step ::
  "(js_string \<rightharpoonup> dict_value) \<Rightarrow> prize \<Rightarrow> (js_string \<rightharpoonup> dict_value)" where
  "category_step acc p =
     dict_write acc (category p)
       (plus_quantity (or_zero (dict_read acc (category p))) (quantity p))"

definition stats :: "prize list \<Rightarrow> stats_result" where
  "stats ps = \<lparr>totalTypes = length ps,
               totalQuantity = foldl quantity_step 0 ps,
               categoryCount = foldl category_step Map.empty ps\<rparr>"

text \<open>What the summary renders for a category: \<open>stats.categoryCount[cat] || 0\<close>.\<close>

definition category_shown :: "stats_result \<Rightarrow> js_string \<Rightarrow> dict_value" where
  "category_shown st cat = or_zero (dict_read (categoryCount st) cat)"

text \<open>The sum of the magnitudes of the quantities of a collection.\<close>

definition quantity_magnitude :: "prize list \<Rightarrow> int" where
  "quantity_magnitude ps = sum_list (map (\<lambda>p. \<bar>quantity p\<bar>) ps)"

section \<open>JSON text (the built-ins \<open>JSON.stringify\<close> and \<open>JSON.parse\<close>)\<close>

text \<open>
  \<open>handleSaveToStorage\<close>, \<open>handleExport\<close> and \<open>handleImport\<close> go through the JSON built-ins
  of the platform. They are modelled after ECMA-262: \<open>JSON.stringify\<close> on the values the
  program passes to it (arrays of \<open>Prize\<close>), \<open>JSON.parse\<close> on any text.
\<close>

subsection \<open>Strings: \<open>QuoteJSONString\<close>\<close>

text \<open>One hexadecimal digit, in lower case, as \<open>UnicodeEscape\<close> writes it.\<close>

definition hex_char :: "nat \<Rightarrow> 16 word" where
  "hex_char d = (if d < 10 then of_nat (48 + d) else of_nat (87 + d))"

text \<open>\<open>UnicodeEscape\<close>: a backslash, \<open>u\<close> and the four hexadecimal digits of the code unit.\<close>

definition UnicodeEscape :: "16 word \<Rightarrow> js_string" where
  "UnicodeEscape c =
     [0x5C, 0x75, hex_char (unat c div 4096 mod 16), hex_char (unat c div 256 mod 16),
      hex_char (unat c div 16 mod 16), hex_char (unat c mod 16)]"

definition is_high_surrogate :: "16 word \<Rightarrow> bool" where
  "is_high_surrogate c \<longleftrightarrow> 0xD800 \<le> c \<and> c \<le> 0xDBFF"

definition is_low_surrogate :: "16 word \<Rightarrow> bool" where
  "is_low_surrogate c \<longleftrightarrow> 0xDC00 \<le> c \<and> c \<le> 0xDFFF"

text \<open>
  The body of \<open>QuoteJSONString\<close>, code point by code point: the quotation mark (0x22) and
  the backslash (0x5C) are escaped with a backslash; backspace, tab, line feed, form feed
  and carriage return are written \<open>\b \t \n \f \r\<close>; every other code unit below 0x20 and
  every surrogate that is not part of a pair is written as a \<open>UnicodeEscape\<close>; a surrogate
  pair and every other code unit are copied.
\<close>

fun quote_body :: "js_string \<Rightarrow> js_string" where
  "quote_body [] = []"
| "quote_body (c # cs) =
     (if c = 0x22 then [0x5C, 0x22] @ quote_body cs
      else if c = 0x5C then [0x5C, 0x5C] @ quote_body cs
      else if c = 0x08 then [0x5C, 0x62] @ quote_body cs
      else if c = 0x09 then [0x5C, 0x74] @ quote_body cs
      else if c = 0x0A then [0x5C, 0x6E] @ quote_body cs
      else if c = 0x0C then [0x5C, 0x66] @ quote_body cs
      else if c = 0x0D then [0x5C, 0x72] @ quote_body cs
      else if c < 0x20 then UnicodeEscape c @ quote_body cs
      else if is_high_surrogate c then
        (case cs of
           [] \<Rightarrow> UnicodeEscape c
         | d # ds \<Rightarrow> if is_low_surrogate d then c # d # quote_body ds
                     else UnicodeEscape c @ quote_body cs)
      else if is_low_surrogate c then UnicodeEscape c @ quote_body cs
      else c # quote_body cs)"

definition QuoteJSONString :: "js_string \<Rightarrow> js_string" where
  "QuoteJSONString s = [0x22] @ quote_body s @ [0x22]"

subsection \<open>Numbers: \<open>Number::toString\<close> on integers\<close>

text \<open>
  The decimal digits of a natural number, and \<open>Number::toString\<close> of an integer. (The
  source's numbers are doubles: an integer of magnitude below \<open>10^21\<close> prints as its
  decimal digits, which is the case modelled.)
\<close>

definition digit_char :: "nat \<Rightarrow> 16 word" where
  "digit_char d = of_nat (48 + d)"

fun digits :: "nat \<Rightarrow> js_string" where
  "digits n = (if n < 10 then [digit_char n] else digits (n div 10) @ [digit_char (n mod 10)])"

declare digits.simps [simp del]

definition number_toString :: "int \<Rightarrow> js_string" where
  "number_toString n = (if n < 0 then 0x2D # digits (nat (- n)) else digits (nat n))"

subsection \<open>\<open>JSON.stringify\<close> of an array of \<open>Prize\<close>\<close>

text \<open>\<open>Array.prototype.join\<close> on strings.\<close>

fun join :: "js_string \<Rightarrow> js_string list \<Rightarrow> js_string" where
  "join sep [] = []"
| "join sep [x] = x"
| "join sep (x # y # ys) = x @ sep @ join sep (y # ys)"

text \<open>
  The common end of \<open>SerializeJSONObject\<close> and \<open>SerializeJSONArray\<close>: \<open>partial\<close> holds the
  serialised properties or elements, \<open>gap\<close> is the indentation unit (empty for the compact
  form), \<open>stepback\<close> the indentation of the enclosing level.
\<close>

definition wrap_partial ::
  "js_string \<Rightarrow> js_string \<Rightarrow> 16 word \<Rightarrow> 16 word \<Rightarrow> js_string list \<Rightarrow> js_string" where
  "wrap_partial gap stepback opening closing partial =
     (let indent = stepback @ gap in
      if partial = [] then [opening, closing]
      else if gap = [] then [opening] @ join [0x2C] partial @ [closing]
      else [opening, 0x0A] @ indent @ join ([0x2C, 0x0A] @ indent) partial
           @ [0x0A] @ stepback @ [closing])"

text \<open>One property: the quoted key, a colon, a space unless the form is compact, the value.\<close>

definition property :: "js_string \<Rightarrow> js_string \<Rightarrow> js_string \<Rightarrow> js_string" where
  "property gap key str =
     QuoteJSONString key @ [0x3A] @ (if gap = [] then [] else [0x20]) @ str"

text \<open>
  The properties of a \<open>Prize\<close>, in the order in which \<open>handleSubmit\<close> creates them (an
  object spread keeps that order); an absent (\<open>undefined\<close>) property is left out.
\<close>

definition prize_properties :: "js_string \<Rightarrow> prize \<Rightarrow> js_string list" where
  "prize_properties gap p =
     [property gap (js ''id'') (QuoteJSONString (prize_id p)),
      property gap (js ''name'') (QuoteJSONString (name p)),
      property gap (js ''quantity'') (number_toString (quantity p)),
      property gap (js ''acquisitionDate'') (QuoteJSONString (acquisitionDate p)),
      property gap (js ''category'') (QuoteJSONString (category p)),
      property gap (js ''manufacturer'') (QuoteJSONString (manufacturer p))]
     @ (case photo p of None \<Rightarrow> []
        | Some v \<Rightarrow> [property gap (js ''photo'') (QuoteJSONString v)])
     @ (case prize_notes p of None \<Rightarrow> []
        | Some v \<Rightarrow> [property gap (js ''notes'') (QuoteJSONString v)])"

definition stringify_prize :: "js_string \<Rightarrow> js_string \<Rightarrow> prize \<Rightarrow> js_string" where
  "stringify_prize gap stepback p =
     wrap_partial gap stepback 0x7B 0x7D (prize_properties gap p)"

definition stringify_prizes :: "js_string \<Rightarrow> prize list \<Rightarrow> js_string" where
  "stringify_prizes gap ps =
     wrap_partial gap [] 0x5B 0x5D (map (stringify_prize gap gap) ps)"

text \<open>\<open>JSON.stringify(prizes)\<close> and \<open>JSON.stringify(prizes, null, 2)\<close>.\<close>

definition JSON_stringify :: "prize list \<Rightarrow> js_string" where
  "JSON_stringify ps = stringify_prizes [] ps"

definition JSON_stringify_pretty :: "prize list \<Rightarrow> js_string" where
  "JSON_stringify_pretty ps = stringify_prizes [0x20, 0x20] ps"

subsection \<open>\<open>JSON.parse\<close>\<close>

datatype json =
    JNull
  | JBool bool
  | JNumber rat
  | JString js_string
  | JArray "json list"
  | JObject "(js_string \<times> json) list"

text \<open>JSON white space: space, tab, line feed, carriage return.\<close>

definition is_ws :: "16 word \<Rightarrow> bool" where
  "is_ws c \<longleftrightarrow> c = 0x20 \<or> c = 0x09 \<or> c = 0x0A \<or> c = 0x0D"

definition skip_ws :: "js_string \<Rightarrow> js_string" where
  "skip_ws cs = dropWhile is_ws cs"

definition is_digit :: "16 word \<Rightarrow> bool" where
  "is_digit c \<longleftrightarrow> 0x30 \<le> c \<and> c \<le> 0x39"

text \<open>The value of a hexadecimal digit, in either case.\<close>

definition hex_value :: "16 word \<Rightarrow> nat option" where
  "hex_value c =
     (let n = unat c in
      if 48 \<le> n \<and> n \<le> 57 then Some (n - 48)
      else if 97 \<le> n \<and> n \<le> 102 then Some (n - 87)
      else if 65 \<le> n \<and> n \<le> 70 then Some (n - 55)
      else None)"

definition unhex4 :: "16 word \<Rightarrow> 16 word \<Rightarrow> 16 word \<Rightarrow> 16 word \<Rightarrow> 16 word option" where
  "unhex4 a b c d =
     (case (hex_value a, hex_value b, hex_value c, hex_value d) of
        (Some x, Some y, Some z, Some w) \<Rightarrow> Some (of_nat (x * 4096 + y * 256 + z * 16 + w))
      | _ \<Rightarrow> None)"

text \<open>The character that a single-character escape stands for.\<close>

definition unescape :: "16 word \<Rightarrow> 16 word option" where
  "unescape e =
     (if e = 0x22 then Some 0x22
      else if e = 0x5C then Some 0x5C
      else if e = 0x2F then Some 0x2F
      else if e = 0x62 then Some 0x08
      else if e = 0x66 then Some 0x0C
      else if e = 0x6E then Some 0x0A
      else if e = 0x72 then Some 0x0D
      else if e = 0x74 then Some 0x09
      else None)"

definition cons_result :: "'a \<Rightarrow> ('a list \<times> 'b) option \<Rightarrow> ('a list \<times> 'b) option" where
  "cons_result x r = (case r of None \<Rightarrow> None | Some (xs, rest) \<Rightarrow> Some (x # xs, rest))"

text \<open>
  A string after its opening quotation mark: the characters up to the closing quotation
  mark, with the escapes resolved, and the text that follows. A control character, an
  unknown escape and the end of the text are syntax errors (\<open>None\<close>).
\<close>

fun parse_string_body :: "js_string \<Rightarrow> (js_string \<times> js_string) option" where
  "parse_string_body [] = None"
| "parse_string_body (c # cs) =
     (if c = 0x22 then Some ([], cs)
      else if c = 0x5C then
        (case cs of
           [] \<Rightarrow> None
         | e # r \<Rightarrow>
             if e = 0x75 then
               (case r of
                  h1 # h2 # h3 # h4 # r' \<Rightarrow>
                    (case unhex4 h1 h2 h3 h4 of
                       None \<Rightarrow> None
                     | Some u \<Rightarrow> cons_result u (parse_string_body r'))
                | _ \<Rightarrow> None)
             else
               (case unescape e of
                  None \<Rightarrow> None
                | Some u \<Rightarrow> cons_result u (parse_string_body r)))
      else if c < 0x20 then None
      else cons_result c (parse_string_body cs))"

text \<open>The natural number that a sequence of decimal digits denotes.\<close>

definition digits_value :: "js_string \<Rightarrow> nat" where
  "digits_value ds = foldl (\<lambda>a c. 10 * a + (unat c - 48)) 0 ds"

text \<open>
  A JSON number: an optional minus sign, an integer part without a superfluous leading
  zero, an optional fraction, an optional exponent. The result is the exact value of the
  literal (\<open>JSON.parse\<close> rounds it to a double; an integer literal of magnitude up to
  \<open>2^53\<close> is its own double).
\<close>

definition parse_int_part :: "js_string \<Rightarrow> (nat \<times> js_string) option" where
  "parse_int_part cs =
     (let ip = takeWhile is_digit cs in
      if ip = [] \<or> (length ip > 1 \<and> hd ip = 0x30) then None
      else Some (digits_value ip, dropWhile is_digit cs))"

definition parse_fraction :: "js_string \<Rightarrow> (rat \<times> js_string) option" where
  "parse_fraction cs =
     (if cs \<noteq> [] \<and> hd cs = 0x2E then
        (let fp = takeWhile is_digit (tl cs) in
         if fp = [] then None
         else Some (of_nat (digits_value fp) / 10 ^ length fp, dropWhile is_digit (tl cs)))
      else Some (0, cs))"

definition parse_exponent :: "js_string \<Rightarrow> (int \<times> js_string) option" where
  "parse_exponent cs =
     (if cs \<noteq> [] \<and> (hd cs = 0x65 \<or> hd cs = 0x45) then
        (let r = tl cs;
             eneg = (r \<noteq> [] \<and> hd r = 0x2D);
             r' = (if r \<noteq> [] \<and> (hd r = 0x2D \<or> hd r = 0x2B) then tl r else r);
             ep = takeWhile is_digit r' in
         if ep = [] then None
         else Some (if eneg then - int (digits_value ep) else int (digits_value ep),
                    dropWhile is_digit r'))
      else Some (0, cs))"

definition scale10 :: "rat \<Rightarrow> int \<Rightarrow> rat" where
  "scale10 m e = (if e < 0 then m / 10 ^ nat (- e) else m * 10 ^ nat e)"

definition parse_number :: "js_string \<Rightarrow> (rat \<times> js_string) option" where
  "parse_number cs =
     (let neg = (cs \<noteq> [] \<and> hd cs = 0x2D) in
      case parse_int_part (if neg then tl cs else cs) of
        None \<Rightarrow> None
      | Some (i, r1) \<Rightarrow>
          (case parse_fraction r1 of
             None \<Rightarrow> None
           | Some (f, r2) \<Rightarrow>
               (case parse_exponent r2 of
                  None \<Rightarrow> None
                | Some (e, r3) \<Rightarrow>
                    Some (if neg then - scale10 (of_nat i + f) e
                          else scale10 (of_nat i + f) e, r3))))"

text \<open>The literals \<open>true\<close>, \<open>false\<close> and \<open>null\<close>.\<close>

definition strip_prefix :: "'a list \<Rightarrow> 'a list \<Rightarrow> 'a list option" where
  "strip_prefix p cs = (if take (length p) cs = p then Some (drop (length p) cs) else None)"

definition parse_literal :: "js_string \<Rightarrow> (json \<times> js_string) option" where
  "parse_literal cs =
     (case strip_prefix (js ''true'') cs of
        Some r \<Rightarrow> Some (JBool True, r)
      | None \<Rightarrow>
         (case strip_prefix (js ''false'') cs of
            Some r \<Rightarrow> Some (JBool False, r)
          | None \<Rightarrow>
             (case strip_prefix (js ''null'') cs of
                Some r \<Rightarrow> Some (JNull, r)
              | None \<Rightarrow> None)))"

definition map_result :: "('a \<Rightarrow> 'b) \<Rightarrow> ('a \<times> 'c) option \<Rightarrow> ('b \<times> 'c) option" where
  "map_result f r = (case r of None \<Rightarrow> None | Some (x, rest) \<Rightarrow> Some (f x, rest))"

text \<open>
  The recursive descent. \<open>parse_value\<close> reads one value after optional white space;
  \<open>parse_elements\<close> reads the elements of a non-empty array up to and including its
  closing bracket, \<open>parse_members\<close> the members of a non-empty object up to and including
  its closing brace. The first argument bounds the depth of the recursion; \<open>JSON_parse\<close>
  starts it above the length of the text.
\<close>

fun parse_value :: "nat \<Rightarrow> js_string \<Rightarrow> (json \<times> js_string) option"
  and parse_elements :: "nat \<Rightarrow> js_string \<Rightarrow> (json list \<times> js_string) option"
  and parse_members :: "nat \<Rightarrow> js_string \<Rightarrow> ((js_string \<times> json) list \<times> js_string) option"
where
  "parse_value 0 cs = None"
| "parse_value (Suc n) cs =
     (case skip_ws cs of
        [] \<Rightarrow> None
      | c # r \<Rightarrow>
          if c = 0x5B then
            (if skip_ws r \<noteq> [] \<and> hd (skip_ws r) = 0x5D then Some (JArray [], tl (skip_ws r))
             else map_result JArray (parse_elements n r))
          else if c = 0x7B then
            (if skip_ws r \<noteq> [] \<and> hd (skip_ws r) = 0x7D then Some (JObject [], tl (skip_ws r))
             else map_result JObject (parse_members n r))
          else if c = 0x22 then map_result JString (parse_string_body r)
          else if c = 0x2D \<or> is_digit c then map_result JNumber (parse_number (c # r))
          else parse_literal (c # r))"
| "parse_elements 0 cs = None"
| "parse_elements (Suc n) cs =
     (case parse_value n cs of
        None \<Rightarrow> None
      | Some (v, r) \<Rightarrow>
          (case skip_ws r of
             [] \<Rightarrow> None
           | c # r' \<Rightarrow>
               if c = 0x2C then cons_result v (parse_elements n r')
               else if c = 0x5D then Some ([v], r')
               else None))"
| "parse_members 0 cs = None"
| "parse_members (Suc n) cs =
     (case skip_ws cs of
        [] \<Rightarrow> None
      | q # r \<Rightarrow>
          if q \<noteq> 0x22 then None
          else
            (case parse_string_body r of
               None \<Rightarrow> None
             | Some (k, r1) \<Rightarrow>
                 (case skip_ws r1 of
                    [] \<Rightarrow> None
                  | colon # r2 \<Rightarrow>
                      if colon \<noteq> 0x3A then None
                      else
                        (case parse_value n r2 of
                           None \<Rightarrow> None
                         | Some (v, r3) \<Rightarrow>
                             (case skip_ws r3 of
                                [] \<Rightarrow> None
                              | c # r4 \<Rightarrow>
                                  if c = 0x2C then cons_result (k, v) (parse_members n r4)
                                  else if c = 0x7D then Some ([(k, v)], r4)
                                  else None)))))"

text \<open>\<open>JSON.parse\<close>: one value, then nothing but white space; \<open>None\<close> is a \<open>SyntaxError\<close>.\<close>

definition JSON_parse :: "js_string \<Rightarrow> json option" where
  "JSON_parse content =
     (case parse_value (Suc (length content)) content of
        None \<Rightarrow> None
      | Some (v, r) \<Rightarrow> if skip_ws r = [] then Some v else None)"

subsection \<open>A parsed value read at type \<open>Prize\<close>\<close>

text \<open>
  \<open>JSON.parse\<close> returns an untyped value, which \<open>handleImport\<close> stores as \<open>Prize[]\<close> without
  looking at its elements. \<open>prize_of_json\<close> is the record that such an element is when it
  has the shape of a \<open>Prize\<close>: an object whose six mandatory properties are present with
  their types, \<open>quantity\<close> being an integer that a double holds exactly, and whose optional
  properties are strings or absent. A property read sees the last of several members
  with the same key; further properties are not part of the record.
\<close>

definition obj_get :: "(js_string \<times> json) list \<Rightarrow> js_string \<Rightarrow> json option" where
  "obj_get members k = map_of (rev members) k"

definition get_string :: "(js_string \<times> json) list \<Rightarrow> js_string \<Rightarrow> js_string option" where
  "get_string members k = (case obj_get members k of Some (JString s) \<Rightarrow> Some s | _ \<Rightarrow> None)"

definition get_optional_string ::
  "(js_string \<times> json) list \<Rightarrow> js_string \<Rightarrow> js_string option option" where
  "get_optional_string members k =
     (case obj_get members k of
        None \<Rightarrow> Some None
      | Some (JString s) \<Rightarrow> Some (Some s)
      | Some _ \<Rightarrow> None)"

definition get_integer :: "(js_string \<times> json) list \<Rightarrow> js_string \<Rightarrow> int option" where
  "get_integer members k =
     (case obj_get members k of
        Some (JNumber q) \<Rightarrow>
          if q = of_int \<lfloor>q\<rfloor> \<and> \<bar>q\<bar> \<le> 9007199254740992 then Some \<lfloor>q\<rfloor> else None
      | _ \<Rightarrow> None)"

definition prize_of_json :: "json \<Rightarrow> prize option" where
  "prize_of_json v =
     (case v of
        JObject members \<Rightarrow> do {
          i \<leftarrow> get_string members (js ''id'');
          n \<leftarrow> get_string members (js ''name'');
          q \<leftarrow> get_integer members (js ''quantity'');
          d \<leftarrow> get_string members (js ''acquisitionDate'');
          c \<leftarrow> get_string members (js ''category'');
          m \<leftarrow> get_string members (js ''manufacturer'');
          ph \<leftarrow> get_optional_string members (js ''photo'');
          no \<leftarrow> get_optional_string members (js ''notes'');
          Some \<lparr>prize_id = i, name = n, quantity = q, acquisitionDate = d, category = c,
                manufacturer = m, photo = ph, prize_notes = no\<rparr>
        }
      | _ \<Rightarrow> None)"

text \<open>All elements of a parsed array, when each is a \<open>Prize\<close>.\<close>

fun prizes_of_json :: "json list \<Rightarrow> prize list option" where
  "prizes_of_json [] = Some []"
| "prizes_of_json (v # vs) =
     (case prize_of_json v of
        None \<Rightarrow> None
      | Some p \<Rightarrow> (case prizes_of_json vs of None \<Rightarrow> None | Some ps \<Rightarrow> Some (p # ps)))"

section \<open>Saving, exporting and importing (src/App.tsx)\<close>

text \<open>The key of the storage slot, \<open>'crane-game-prizes'\<close>.\<close>

definition storage_key :: js_string where
  "storage_key = js ''crane-game-prizes''"

text \<open>
  \<open>localStorage.setItem\<close>: the write fails with a \<open>QuotaExceededError\<close> (\<open>None\<close>) when the
  item does not fit the capacity \<open>cap\<close> that the browser grants, counted in code units.
\<close>

definition localStorage_setItem ::
  "nat \<Rightarrow> js_string \<Rightarrow> js_string \<Rightarrow> (js_string \<rightharpoonup> js_string) \<Rightarrow> (js_string \<rightharpoonup> js_string) option" where
  "localStorage_setItem cap k v store =
     (if length k + length v \<le> cap then Some (store(k \<mapsto> v)) else None)"

text \<open>
  \<open>handleSaveToStorage\<close> sets the status and starts a timer of 400 ms, whose callback
  closes over the collection of the render in which the button was pressed.
  \<open>save_timeout\<close> is that callback, \<open>snapshot\<close> the captured collection: it writes the
  captured collection and, when the write succeeds, clears the dirty flag and starts the
  timer of 2000 ms that resets the status (\<open>status_timeout\<close>); when the write throws, it
  shows the alert and resets the status.
\<close>

definition handleSaveToStorage :: "app_state \<Rightarrow> app_state" where
  "handleSaveToStorage s = s\<lparr>saveStatus := Saving, timers := timers s @ [SaveTimer (prizes s)]\<rparr>"

definition save_timeout :: "nat \<Rightarrow> prize list \<Rightarrow> app_state \<Rightarrow> app_state" where
  "save_timeout cap snapshot s =
     (case localStorage_setItem cap storage_key (JSON_stringify snapshot) (localStorage s) of
        Some store \<Rightarrow>
          s\<lparr>localStorage := store, isDirty := False, saveStatus := Saved,
            timers := timers s @ [StatusTimer]\<rparr>
      | None \<Rightarrow> s\<lparr>saveStatus := Idle\<rparr>)"

definition status_timeout :: "app_state \<Rightarrow> app_state" where
  "status_timeout s = s\<lparr>saveStatus := Idle\<rparr>"

text \<open>
  The pending timer at position \<open>k\<close> fires: it leaves the list of pending timers and its
  callback runs. (Any pending timer may fire; the browser fires them by their delays.)
\<close>

definition fire_timer :: "nat \<Rightarrow> nat \<Rightarrow> app_state \<Rightarrow> app_state" where
  "fire_timer cap k s =
     (if k < length (timers s) then
        (let s1 = s\<lparr>timers := take k (timers s) @ drop (Suc k) (timers s)\<rparr> in
         case timers s ! k of
           SaveTimer snapshot \<Rightarrow> save_timeout cap snapshot s1
         | StatusTimer \<Rightarrow> status_timeout s1)
      else s)"

text \<open>
  \<open>handleExport\<close>: the name and the text of the downloaded file. The text goes through
  \<open>encodeURIComponent\<close> into a data URI, and the file holds it again, in UTF-8; \<open>today\<close> is
  the date part of \<open>new Date().toISOString()\<close>.
\<close>

definition handleExport :: "js_string \<Rightarrow> app_state \<Rightarrow> (js_string \<times> js_string) \<times> app_state" where
  "handleExport today s =
     ((js ''crane_game_inventory_'' @ today @ js ''.json'', JSON_stringify_pretty (prizes s)),
      s\<lparr>showTools := False\<rparr>)"

text \<open>
  \<open>handleImport\<close>. \<open>file\<close> is the text of the selected file, if one was selected, and
  \<open>confirmed\<close> the answer to the \<open>confirm\<close> dialog. The outcomes: no file; a rejection with
  one of the two error alerts; a declined confirmation; the replaced collection. The
  source stores the parsed array without looking at its elements: when every element is a
  \<open>Prize\<close> the new state is again an \<open>app_state\<close> (\<open>Imported\<close>), otherwise it is a state
  whose collection holds the parsed values as they are (\<open>ImportedUntyped\<close>).
\<close>

datatype import_alert = ReadError | InvalidFormat

datatype import_result =
    NoFile app_state
  | Rejected import_alert app_state
  | Declined app_state
  | Imported app_state
  | ImportedUntyped "json component_state"

text \<open>The state with another collection.\<close>

definition with_prizes :: "'q list \<Rightarrow> 'p component_state \<Rightarrow> 'q component_state" where
  "with_prizes xs s =
     \<lparr>prizes = xs, isModalOpen = isModalOpen s, prizeToEdit = prizeToEdit s,
      isDirty = isDirty s, saveStatus = saveStatus s, showTools = showTools s,
      localStorage = localStorage s, timers = timers s\<rparr>"

definition import_onload :: "js_string \<Rightarrow> bool \<Rightarrow> app_state \<Rightarrow> import_result" where
  "import_onload content confirmed s =
     (case JSON_parse content of
        None \<Rightarrow> Rejected ReadError s
      | Some importedData \<Rightarrow>
          (case importedData of
             JArray items \<Rightarrow>
               if confirmed then
                 (case prizes_of_json items of
                    Some ps \<Rightarrow> Imported (s\<lparr>prizes := ps, isDirty := True\<rparr>)
                  | None \<Rightarrow> ImportedUntyped ((with_prizes items s)\<lparr>isDirty := True\<rparr>))
               else Declined s
           | _ \<Rightarrow> Rejected InvalidFormat s))"

definition handleImport :: "js_string option \<Rightarrow> bool \<Rightarrow> app_state \<Rightarrow> import_result" where
  "handleImport file confirmed s =
     (case file of
        None \<Rightarrow> NoFile s
      | Some content \<Rightarrow> import_onload content confirmed (s\<lparr>showTools := False\<rparr>))"

section \<open>The handlers as events on the state\<close>

text \<open>
  One constructor for each handler of \<open>App\<close> that writes the state, and one for the firing
  of a pending timer; \<open>step\<close> runs the event. The result is the next state of the typed
  component, or, after the import of an array that is not a \<open>Prize[]\<close>, the state that
  holds the parsed values (\<open>Foreign\<close>), on which the typed model stops.
\<close>

datatype event =
    SavePrize prize
  | DeletePrize js_string bool
  | QuantityChange js_string int
  | ClearAll bool
  | Import "js_string option" bool
  | Export js_string
  | SaveClicked
  | TimerFires nat

datatype step_result = Next app_state | Foreign "json component_state"

definition import_step :: "import_result \<Rightarrow> step_result" where
  "import_step r =
     (case r of
        NoFile s \<Rightarrow> Next s
      | Rejected a s \<Rightarrow> Next s
      | Declined s \<Rightarrow> Next s
      | Imported s \<Rightarrow> Next s
      | ImportedUntyped s \<Rightarrow> Foreign s)"

fun step :: "nat \<Rightarrow> event \<Rightarrow> app_state \<Rightarrow> step_result" where
  "step cap (SavePrize p) s = Next (handleSavePrize p s)"
| "step cap (DeletePrize i c) s = Next (handleDeletePrize i c s)"
| "step cap (QuantityChange i q) s = Next (handleQuantityChange i q s)"
| "step cap (ClearAll c) s = Next (handleClearAll c s)"
| "step cap (Import f c) s = import_step (handleImport f c s)"
| "step cap (Export today) s = Next (snd (handleExport today s))"
| "step cap SaveClicked s = Next (handleSaveToStorage s)"
| "step cap (TimerFires k) s = Next (fire_timer cap k s)"


text \<open>
  A sequence of events from a state, as long as the collection stays typed (\<open>None\<close> once an
  import has stored an array that is not a \<open>Prize[]\<close>).
\<close>

fun run :: "nat \<Rightarrow> event list \<Rightarrow> app_state \<Rightarrow> app_state option" where
  "run cap [] s = Some s"
| "run cap (e # es) s = (case step cap e s of Next s' \<Rightarrow> run cap es s' | Foreign s' \<Rightarrow> None)"


text \<open>A dirty store with the records A and B and no pending timer, for the witnesses.\<close>

definition dirty_AB :: app_state where
  "dirty_AB = store_AB\<lparr>isDirty := True\<rparr>"

section \<open>Notions for the round trip of a collection through JSON\<close>

text \<open>
  The JSON value that \<open>JSON.parse\<close> yields for a serialised \<open>Prize\<close>, entry by entry: the
  key, the text of the value and the parsed value. The other definitions of this section
  state what the parser is proved to do on serialised text: \<open>parses m t v\<close> says that the
  text \<open>t\<close>, after any white space and before any text that cannot continue a number, is
  read as \<open>v\<close> with any depth bound from \<open>m\<close> on.
\<close>

definition plain_char :: "16 word \<Rightarrow> bool" where
  "plain_char c \<longleftrightarrow> c \<noteq> 0x22 \<and> c \<noteq> 0x5C \<and> \<not> c < 0x20"

definition number_end :: "js_string \<Rightarrow> bool" where
  "number_end rest \<longleftrightarrow>
     (case rest of [] \<Rightarrow> True
      | c # r \<Rightarrow> \<not> is_digit c \<and> c \<noteq> 0x2E \<and> c \<noteq> 0x65 \<and> c \<noteq> 0x45)"

definition all_ws :: "js_string \<Rightarrow> bool" where
  "all_ws ws \<longleftrightarrow> (\<forall>c \<in> set ws. is_ws c)"

definition parses :: "nat \<Rightarrow> js_string \<Rightarrow> json \<Rightarrow> bool" where
  "parses m t v \<longleftrightarrow>
     (\<forall>n ws rest. m \<le> n \<longrightarrow> all_ws ws \<longrightarrow> number_end rest
        \<longrightarrow> parse_value n (ws @ t @ rest) = Some (v, rest))"

definition prize_entries :: "prize \<Rightarrow> (js_string \<times> js_string \<times> json) list" where
  "prize_entries p =
     [(js ''id'', QuoteJSONString (prize_id p), JString (prize_id p)),
      (js ''name'', QuoteJSONString (name p), JString (name p)),
      (js ''quantity'', number_toString (quantity p), JNumber (of_int (quantity p))),
      (js ''acquisitionDate'', QuoteJSONString (acquisitionDate p), JString (acquisitionDate p)),
      (js ''category'', QuoteJSONString (category p), JString (category p)),
      (js ''manufacturer'', QuoteJSONString (manufacturer p), JString (manufacturer p))]
     @ (case photo p of None \<Rightarrow> []
        | Some v \<Rightarrow> [(js ''photo'', QuoteJSONString v, JString v)])
     @ (case prize_notes p of None \<Rightarrow> []
        | Some v \<Rightarrow> [(js ''notes'', QuoteJSONString v, JString v)])"

definition json_of_prize :: "prize \<Rightarrow> json" where
  "json_of_prize p = JObject (map (\<lambda>(k, t, v). (k, v)) (prize_entries p))"

section \<open>The filtered and sorted view (src/App.tsx, \<open>filteredAndSortedPrizes\<close>)\<close>

datatype sort_order = DateDesc | NameAsc | NameDesc

text \<open>The \<open>all\<close> value of the category selector, U+3059 U+3079 U+3066.\<close>

definition cat_all :: js_string where
  "cat_all = [0x3059, 0x3079, 0x3066]"

text \<open>
  \<open>Array.prototype.sort\<close> with a comparison function: the sort is stable, an element goes
  before another when the function returns a negative number for the pair, and elements
  for which it returns 0 keep their order. For a consistent comparison function the
  result is determined, and it is the one that this insertion sort computes. (For an
  inconsistent one the order is implementation-defined.)
\<close>

fun insert_by :: "('a \<Rightarrow> 'a \<Rightarrow> int) \<Rightarrow> 'a \<Rightarrow> 'a list \<Rightarrow> 'a list" where
  "insert_by cmp x [] = [x]"
| "insert_by cmp x (y # ys) = (if cmp x y \<le> 0 then x # y # ys else y # insert_by cmp x ys)"

definition sort_by :: "('a \<Rightarrow> 'a \<Rightarrow> int) \<Rightarrow> 'a list \<Rightarrow> 'a list" where
  "sort_by cmp xs = foldr (insert_by cmp) xs []"

text \<open>
  The difference of two \<open>getTime()\<close> values; \<open>None\<close> is the \<open>NaN\<close> of an invalid date, and a
  \<open>NaN\<close> result counts as 0 for the sort.
\<close>

definition time_diff :: "int option \<Rightarrow> int option \<Rightarrow> int" where
  "time_diff tb ta = (case (tb, ta) of (Some x, Some y) \<Rightarrow> x - y | _ \<Rightarrow> 0)"

text \<open>
  The memo. Three built-ins are parameters: \<open>toLowerCase\<close>, the comparison
  \<open>localeCompare(_, 'ja')\<close> and the time of a date string, \<open>new Date(_).getTime()\<close>.
  \<open>String.prototype.includes\<close> is the test for a contiguous sublist.
\<close>

definition filteredAndSortedPrizes ::
  "(js_string \<Rightarrow> js_string) \<Rightarrow> (js_string \<Rightarrow> js_string \<Rightarrow> int) \<Rightarrow> (js_string \<Rightarrow> int option)
     \<Rightarrow> prize list \<Rightarrow> js_string \<Rightarrow> js_string \<Rightarrow> sort_order \<Rightarrow> prize list" where
  "filteredAndSortedPrizes toLowerCase localeCompare getTime ps searchTerm selectedCategory sortOrder =
     (let filtered =
            filter (\<lambda>prize.
                let nameMatch = sublist (toLowerCase searchTerm) (toLowerCase (name prize));
                    categoryMatch = (selectedCategory = cat_all \<or> category prize = selectedCategory)
                in nameMatch \<and> categoryMatch) ps
      in case sortOrder of
           NameAsc \<Rightarrow> sort_by (\<lambda>a b. localeCompare (name a) (name b)) filtered
         | NameDesc \<Rightarrow> sort_by (\<lambda>a b. localeCompare (name b) (name a)) filtered
         | DateDesc \<Rightarrow>
             sort_by (\<lambda>a b. time_diff (getTime (acquisitionDate b)) (getTime (acquisitionDate a)))
               filtered)"

text \<open>
  A comparison function is consistent on a set of strings when the signs of its results
  are antisymmetric and the order that they give is transitive there.
\<close>

definition consistent_on :: "(js_string \<Rightarrow> js_string \<Rightarrow> int) \<Rightarrow> js_string set \<Rightarrow> bool" where
  "consistent_on cmp S \<longleftrightarrow>
     (\<forall>a \<in> S. \<forall>b \<in> S. (cmp a b < 0 \<longleftrightarrow> 0 < cmp b a))
   \<and> (\<forall>a \<in> S. \<forall>b \<in> S. \<forall>c \<in> S. cmp a b \<le> 0 \<and> cmp b c \<le> 0 \<longrightarrow> cmp a c \<le> 0)"

text \<open>No two records, at different positions, have names that compare as equal.\<close>

definition no_ties :: "(js_string \<Rightarrow> js_string \<Rightarrow> int) \<Rightarrow> prize list \<Rightarrow> bool" where
  "no_ties cmp ps \<longleftrightarrow>
     (\<forall>i < length ps. \<forall>j < length ps. i \<noteq> j \<longrightarrow> cmp (name (ps ! i)) (name (ps ! j)) \<noteq> 0)"

text \<open>A comparison by length, then by the code units, used at the witness.\<close>

definition compare_length :: "js_string \<Rightarrow> js_string \<Rightarrow> int" where
  "compare_length a b = int (length a) - int (length b)"

definition prize_BB :: prize where
  "prize_BB = prize_B\<lparr>name := js ''BB''\<rparr>"

section \<open>The edit form (src/components/PrizeFormModal.tsx)\<close>

text \<open>
  The state of \<open>PrizeFormModal\<close>. The fields have the names of the component's state
  variables, with the prefix \<open>form\<close> where a field of \<open>Prize\<close> has the same name.
\<close>

record form_state =
  form_name :: js_string
  form_quantity :: int
  form_acquisitionDate :: js_string
  form_photo :: js_string
  isProcessingImage :: bool
  form_notes :: js_string
  form_category :: js_string
  form_manufacturer :: js_string

text \<open>The default manufacturer, U+6307 U+5B9A U+306A U+3057 (the first of \<open>prizeManufacturers\<close>).\<close>

definition manufacturer_unspecified :: js_string where
  "manufacturer_unspecified = [0x6307, 0x5B9A, 0x306A, 0x3057]"

text \<open>
  \<open>v || d\<close> on an optional string and on an optional number: the default replaces a
  value that is absent or falsy (the empty string, the number 0).
\<close>

definition string_or :: "js_string option \<Rightarrow> js_string \<Rightarrow> js_string" where
  "string_or v d = (case v of None \<Rightarrow> d | Some s \<Rightarrow> if s = [] then d else s)"



text \<open>
  \<open>String.prototype.trim\<close> removes white space and line terminators from both ends:
  U+0009 to U+000D, U+0020, U+00A0, U+1680, U+2000 to U+200A, U+2028, U+2029, U+202F,
  U+205F, U+3000 and U+FEFF.
\<close>

definition is_js_space :: "16 word \<Rightarrow> bool" where
  "is_js_space c \<longleftrightarrow>
     (0x09 \<le> c \<and> c \<le> 0x0D) \<or> c = 0x20 \<or> c = 0xA0 \<or> c = 0x1680
     \<or> (0x2000 \<le> c \<and> c \<le> 0x200A) \<or> c = 0x2028 \<or> c = 0x2029 \<or> c = 0x202F
     \<or> c = 0x205F \<or> c = 0x3000 \<or> c = 0xFEFF"

definition js_trim :: "js_string \<Rightarrow> js_string" where
  "js_trim s = rev (dropWhile is_js_space (rev (dropWhile is_js_space s)))"

text \<open>
  \<open>handleSubmit\<close>: \<open>None\<close> when the handler returns early (a blank name, or an image still
  being processed), otherwise the record that is passed to \<open>onSave\<close>; \<open>now\<close> is
  \<open>Date.now().toString()\<close>.
\<close>

definition handleSubmit :: "js_string \<Rightarrow> prize option \<Rightarrow> form_state \<Rightarrow> prize option" where
  "handleSubmit now toEdit f =
     (if js_trim (form_name f) = [] \<or> isProcessingImage f then None
      else Some \<lparr>prize_id = string_or (map_option prize_id toEdit) now,
                 name = form_name f,
                 quantity = form_quantity f,
                 acquisitionDate = form_acquisitionDate f,
                 category = form_category f,
                 manufacturer = form_manufacturer f,
                 photo = Some (form_photo f),
                 prize_notes = Some (form_notes f)\<rparr>)"


text \<open>A form as the component creates it, and a record with quantity 0, for the witnesses.\<close>

definition initial_form :: form_state where
  "initial_form = \<lparr>form_name = [], form_quantity = 1, form_acquisitionDate = [],
     form_photo = [], isProcessingImage = False, form_notes = [],
     form_category = cat_other, form_manufacturer = manufacturer_unspecified\<rparr>"



section \<open>Numbers of the image resize (src/components/PrizeFormModal.tsx, \<open>resizeImage\<close>)\<close>

text \<open>
  The arithmetic of \<open>resizeImage\<close> is on JavaScript numbers, IEEE 754 doubles. A double is
  modelled by the rational it denotes. \<open>round_double\<close> rounds a rational to the nearest
  double, ties to the even significand, for a result in the normal range (all values of
  the resize are products and quotients of pixel counts, far from overflow and underflow):
  with \<open>2^e \<le> |x| < 2^(e+1)\<close> the doubles near \<open>x\<close> are the multiples of \<open>2^(e-52)\<close>.
\<close>

definition round_half_even :: "rat \<Rightarrow> int" where
  "round_half_even y =
     (let f = \<lfloor>y\<rfloor>; r = y - of_int f in
      if r < 1 / 2 then f
      else if 1 / 2 < r then f + 1
      else if even f then f else f + 1)"

text \<open>
  The exponent \<open>e\<close> with \<open>2^e \<le> x < 2^(e+1)\<close> of a positive rational, from the bit lengths
  of its numerator and denominator.
\<close>

definition ilog2 :: "rat \<Rightarrow> int" where
  "ilog2 x =
     (let (p, q) = quotient_of x;
          k = int (floorlog 2 (nat p)) - int (floorlog 2 (nat q))
      in if x < 2 powi k then k - 1 else k)"

definition round_double :: "rat \<Rightarrow> rat" where
  "round_double x =
     (if x = 0 then 0
      else (let u = 2 powi (ilog2 \<bar>x\<bar> - 52)
            in sgn x * of_int (round_half_even (\<bar>x\<bar> / u)) * u))"

text \<open>The operators \<open>/\<close> and \<open>*\<close> on doubles: the exact result, rounded.\<close>

definition js_div :: "rat \<Rightarrow> rat \<Rightarrow> rat" where
  "js_div a b = round_double (a / b)"

definition js_mul :: "rat \<Rightarrow> rat \<Rightarrow> rat" where
  "js_mul a b = round_double (a * b)"

text \<open>
  The values of \<open>width\<close> and \<open>height\<close> after the two nested conditionals, from the natural
  size of the image.
\<close>

definition MAX_WIDTH :: nat where "MAX_WIDTH = 600"

definition MAX_HEIGHT :: nat where "MAX_HEIGHT = 600"

definition resize_dims :: "nat \<Rightarrow> nat \<Rightarrow> rat \<times> rat" where
  "resize_dims img_width img_height =
     (if img_width > img_height then
        (if img_width > MAX_WIDTH then
           (of_nat MAX_WIDTH,
            js_mul (of_nat img_height) (js_div (of_nat MAX_WIDTH) (of_nat img_width)))
         else (of_nat img_width, of_nat img_height))
      else
        (if img_height > MAX_HEIGHT then
           (js_mul (of_nat img_width) (js_div (of_nat MAX_HEIGHT) (of_nat img_height)),
            of_nat MAX_HEIGHT)
         else (of_nat img_width, of_nat img_height)))"

text \<open>
  The assignments \<open>canvas.width = width\<close> and \<open>canvas.height = height\<close> convert the number
  to an \<open>unsigned long\<close>: a non-negative number is truncated to an integer, modulo \<open>2^32\<close>.
  \<open>canvas_dims\<close> is the size of the canvas that is drawn and encoded.
\<close>

definition to_unsigned_long :: "rat \<Rightarrow> nat" where
  "to_unsigned_long x = nat \<lfloor>x\<rfloor> mod 2 ^ 32"

definition canvas_dims :: "nat \<Rightarrow> nat \<Rightarrow> nat \<times> nat" where
  "canvas_dims img_width img_height =
     (let (width, height) = resize_dims img_width img_height
      in (to_unsigned_long width, to_unsigned_long height))"

section \<open>Photo ingestion (src/components/PrizeFormModal.tsx)\<close>

text \<open>
  How the promise of \<open>resizeImage\<close> ends for the caller that awaits it: resolved with a
  value, rejected (the \<open>await\<close> throws), or never settled (the \<open>await\<close> never returns).
\<close>

datatype 'a promise = Resolved 'a | Thrown | Pending

text \<open>
  \<open>resizeImage\<close>. Two steps belong to the browser and are parameters: \<open>decode\<close>, the natural
  width and height of the image that the data URL holds, or \<open>None\<close> when the image does not
  load (the \<open>error\<close> event fires, for which the source registers no handler); and
  \<open>toDataURL\<close>, the JPEG data URL of the image drawn on a canvas of the given size, or
  \<open>None\<close> when drawing or encoding throws inside the \<open>onload\<close> callback. The promise is
  resolved only by the last statement of \<open>onload\<close>; nothing rejects it.
\<close>

definition resizeImage ::
  "(js_string \<Rightarrow> (nat \<times> nat) option) \<Rightarrow> (js_string \<Rightarrow> nat \<times> nat \<Rightarrow> js_string option)
     \<Rightarrow> js_string \<Rightarrow> js_string promise" where
  "resizeImage decode toDataURL base64Str =
     (case decode base64Str of
        None \<Rightarrow> Pending
      | Some (w, h) \<Rightarrow>
          (case toDataURL base64Str (canvas_dims w h) of
             None \<Rightarrow> Pending
           | Some resizedBase64 \<Rightarrow> Resolved resizedBase64))"

text \<open>
  \<open>handlePhotoChange\<close>, with the \<open>onloadend\<close> callback of the reader; \<open>file\<close> is the data URL
  of the selected file, if one was selected. The result is the state of the form once
  nothing more happens: after the \<open>finally\<close> block, or, when the awaited promise never
  settles, the state in which the handler is suspended for good.
\<close>

definition handlePhotoChange ::
  "(js_string \<Rightarrow> (nat \<times> nat) option) \<Rightarrow> (js_string \<Rightarrow> nat \<times> nat \<Rightarrow> js_string option)
     \<Rightarrow> js_string option \<Rightarrow> form_state \<Rightarrow> form_state" where
  "handlePhotoChange decode toDataURL file f =
     (case file of
        None \<Rightarrow> f
      | Some base64 \<Rightarrow>
          (let f1 = f\<lparr>isProcessingImage := True\<rparr> in
           case resizeImage decode toDataURL base64 of
             Resolved compressed \<Rightarrow> f1\<lparr>form_photo := compressed, isProcessingImage := False\<rparr>
           | Thrown \<Rightarrow> f1\<lparr>form_photo := base64, isProcessingImage := False\<rparr>
           | Pending \<Rightarrow> f1))"

text \<open>
  A decoder that loads no image, an encoder that always throws, the data URL of a file
  that is not an image, and a filled form, for the evaluation of the failing case.
\<close>

definition no_decode :: "js_string \<Rightarrow> (nat \<times> nat) option" where
  "no_decode base64Str = None"

definition no_encode :: "js_string \<Rightarrow> nat \<times> nat \<Rightarrow> js_string option" where
  "no_encode base64Str dims = None"

definition decode_1200_800 :: "js_string \<Rightarrow> (nat \<times> nat) option" where
  "decode_1200_800 base64Str = Some (1200, 800)"

definition not_an_image :: js_string where
  "not_an_image = js ''data:text/plain;base64,aGVsbG8=''"

definition filled_form :: form_state where
  "filled_form = initial_form\<lparr>form_name := js ''Z''\<rparr>"

section \<open>Properties of the store operations\<close>

lemma findIndex_ge: "- 1 \<le> findIndex P xs"
  by (induction xs) (auto simp: Let_def)

lemma findIndex_none: "findIndex P xs = - 1 \<longleftrightarrow> (\<forall>x \<in> set xs. \<not> P x)"
proof (induction xs)
  case Nil
  show ?case by simp
next
  case (Cons x xs)
  have "findIndex P xs + 1 \<noteq> - 1"
    using findIndex_ge [of P xs] by arith
  with Cons show ?case by (auto simp: Let_def)
qed

lemma findIndex_first:
  "i < length xs \<Longrightarrow> P (xs ! i) \<Longrightarrow> (\<forall>j < i. \<not> P (xs ! j)) \<Longrightarrow> findIndex P xs = int i"
proof (induction xs arbitrary: i)
  case Nil
  then show ?case by simp
next
  case (Cons x xs)
  show ?case
  proof (cases i)
    case 0
    with Cons.prems show ?thesis by simp
  next
    case (Suc k)
    with Cons.prems have nx: "\<not> P x" by auto
    have "findIndex P xs = int k"
    proof (rule Cons.IH)
      show "k < length xs" using Cons.prems Suc by simp
      show "P (xs ! k)" using Cons.prems Suc by simp
      show "\<forall>j<k. \<not> P (xs ! j)"
      proof (intro allI impI)
        fix j assume "j < k"
        then have "Suc j < i" using Suc by simp
        with Cons.prems(3) have "\<not> P ((x # xs) ! Suc j)" by blast
        then show "\<not> P (xs ! j)" by simp
      qed
    qed
    with nx Suc show ?thesis by (simp add: Let_def)
  qed
qed

lemma savePrize_updater_replace:
  assumes "i < length ps" "prize_id (ps ! i) = prize_id r"
    and "\<forall>j < i. prize_id (ps ! j) \<noteq> prize_id r"
  shows "savePrize_updater r ps = ps[i := r]"
  using findIndex_first [of i ps "\<lambda>p. prize_id p = prize_id r"] assms
  by (simp add: savePrize_updater_def)

lemma savePrize_updater_append:
  assumes "prize_id r \<notin> prize_id ` set ps"
  shows "savePrize_updater r ps = ps @ [r]"
proof -
  have "\<forall>x \<in> set ps. prize_id x \<noteq> prize_id r"
    using assms by (metis imageI)
  then have "findIndex (\<lambda>p. prize_id p = prize_id r) ps = - 1"
    by (simp add: findIndex_none)
  then show ?thesis by (simp add: savePrize_updater_def)
qed

lemma first_match_exists:
  "\<exists>x \<in> set xs. P x \<Longrightarrow> \<exists>i < length xs. P (xs ! i) \<and> (\<forall>j < i. \<not> P (xs ! j))"
proof (induction xs)
  case Nil
  then show ?case by simp
next
  case (Cons x xs)
  show ?case
  proof (cases "P x")
    case True
    then have "0 < length (x # xs) \<and> P ((x # xs) ! 0) \<and> (\<forall>j < 0. \<not> P ((x # xs) ! j))"
      by simp
    then show ?thesis by blast
  next
    case False
    with Cons.prems have "\<exists>y \<in> set xs. P y" by auto
    with Cons.IH obtain i where i: "i < length xs" "P (xs ! i)" "\<forall>j < i. \<not> P (xs ! j)"
      by blast
    have "\<forall>j < Suc i. \<not> P ((x # xs) ! j)"
    proof (intro allI impI)
      fix j assume "j < Suc i"
      then show "\<not> P ((x # xs) ! j)" using False i(3) by (cases j) auto
    qed
    with i(1,2) have "Suc i < length (x # xs) \<and> P ((x # xs) ! Suc i)
        \<and> (\<forall>j < Suc i. \<not> P ((x # xs) ! j))"
      by simp
    then show ?thesis by blast
  qed
qed

lemma prizes_handleSavePrize [simp]:
  "prizes (handleSavePrize r s) = savePrize_updater r (prizes s)"
  by (simp add: handleSavePrize_def)

lemma upsert_all_snoc: "upsert_all s (rs @ [r]) = handleSavePrize r (upsert_all s rs)"
  by (simp add: upsert_all_def)

lemma savePrize_updater_cases:
  fixes r :: prize and ps :: "prize list"
  obtains (replace) i where "i < length ps" "prize_id (ps ! i) = prize_id r"
      "\<forall>j < i. prize_id (ps ! j) \<noteq> prize_id r" "savePrize_updater r ps = ps[i := r]"
  | (append) "prize_id r \<notin> prize_id ` set ps" "savePrize_updater r ps = ps @ [r]"
proof (cases "prize_id r \<in> prize_id ` set ps")
  case True
  then have "\<exists>x \<in> set ps. prize_id x = prize_id r" by auto
  from first_match_exists [of ps "\<lambda>p. prize_id p = prize_id r", OF this]
  obtain i where i: "i < length ps" "prize_id (ps ! i) = prize_id r"
    "\<forall>j < i. prize_id (ps ! j) \<noteq> prize_id r" by blast
  then show thesis using replace savePrize_updater_replace by blast
next
  case False
  then show thesis using append savePrize_updater_append by blast
qed

lemma savePrize_updater_ids:
  "map prize_id (savePrize_updater r ps) =
     (if prize_id r \<in> prize_id ` set ps then map prize_id ps else map prize_id ps @ [prize_id r])"
proof (cases rule: savePrize_updater_cases [of ps r])
  case (replace i)
  have "map prize_id (ps[i := r]) = (map prize_id ps)[i := prize_id (ps ! i)]"
    using replace(2) by (simp add: map_update)
  also have "\<dots> = map prize_id ps"
    using replace(1) by (metis length_map list_update_id nth_map)
  finally show ?thesis using replace by (metis imageI nth_mem)
next
  case append
  then show ?thesis by simp
qed

lemma savePrize_updater_distinct:
  "distinct (map prize_id ps) \<Longrightarrow> distinct (map prize_id (savePrize_updater r ps))"
  by (simp add: savePrize_updater_ids)

lemma savePrize_updater_mem: "r \<in> set (savePrize_updater r ps)"
proof (cases rule: savePrize_updater_cases [of ps r])
  case (replace i)
  then show ?thesis by (simp add: set_update_memI)
next
  case append
  then show ?thesis by simp
qed

lemma savePrize_updater_keeps:
  "x \<in> set ps \<Longrightarrow> prize_id x \<noteq> prize_id r \<Longrightarrow> x \<in> set (savePrize_updater r ps)"
proof (cases rule: savePrize_updater_cases [of ps r])
  case (replace i)
  assume x: "x \<in> set ps" "prize_id x \<noteq> prize_id r"
  then obtain k where k: "k < length ps" "ps ! k = x" by (metis in_set_conv_nth)
  with x replace(2) have "k \<noteq> i" by auto
  with k have "k < length (ps[i := r])" "ps[i := r] ! k = x" by simp_all
  then have "x \<in> set (ps[i := r])" by (metis nth_mem)
  with replace(4) show ?thesis by simp
next
  case append
  assume "x \<in> set ps"
  with append(2) show ?thesis by simp
qed

lemma upsert_all_distinct:
  "distinct (map prize_id (prizes s)) \<Longrightarrow> distinct (map prize_id (prizes (upsert_all s rs)))"
  by (induction rs rule: rev_induct)
     (simp_all add: upsert_all_snoc savePrize_updater_distinct upsert_all_def)

lemma upsert_all_ids:
  "prize_id ` set (prizes (upsert_all s rs)) = prize_id ` (set (prizes s) \<union> set rs)"
proof (induction rs rule: rev_induct)
  case Nil
  show ?case by (simp add: upsert_all_def)
next
  case (snoc r rs)
  have "prize_id ` set (savePrize_updater r (prizes (upsert_all s rs)))
      = set (map prize_id (savePrize_updater r (prizes (upsert_all s rs))))"
    by simp
  also have "\<dots> = insert (prize_id r) (prize_id ` set (prizes (upsert_all s rs)))"
    unfolding savePrize_updater_ids by auto
  finally show ?case using snoc by (auto simp: upsert_all_snoc)
qed

lemma upsert_all_last:
  "r \<in> set rs \<Longrightarrow>
     last (filter (\<lambda>x. prize_id x = prize_id r) rs) \<in> set (prizes (upsert_all s rs))"
proof (induction rs rule: rev_induct)
  case Nil
  then show ?case by simp
next
  case (snoc y rs)
  show ?case
  proof (cases "prize_id y = prize_id r")
    case True
    then show ?thesis by (simp add: upsert_all_snoc savePrize_updater_mem)
  next
    case False
    with snoc.prems have r: "r \<in> set rs" by auto
    let ?l = "last (filter (\<lambda>x. prize_id x = prize_id r) rs)"
    have ne: "filter (\<lambda>x. prize_id x = prize_id r) rs \<noteq> []"
      using r by (auto simp: filter_empty_conv)
    then have "?l \<in> set (filter (\<lambda>x. prize_id x = prize_id r) rs)" by (rule last_in_set)
    then have "prize_id ?l = prize_id r" by simp
    with False have "prize_id ?l \<noteq> prize_id y" by simp
    with snoc.IH [OF r] have "?l \<in> set (savePrize_updater y (prizes (upsert_all s rs)))"
      by (rule savePrize_updater_keeps)
    with False show ?thesis by (simp add: upsert_all_snoc)
  qed
qed

text \<open>
  C1. A call of \<open>handleSavePrize\<close> whose record has the id of a stored record replaces
  the first such record at its index, so that every other position is as before; a call
  with an id that is not stored appends the record at the end. Hence, from a collection
  whose ids are distinct, any sequence of calls leaves a collection with distinct ids,
  whose size is the number of distinct ids among the stored and the saved records, and
  which holds, for each saved id, the last record saved under it.
\<close>

theorem upsert_replaces_or_appends:
  "(\<forall>i < length (prizes s).
       prize_id (prizes s ! i) = prize_id r \<and> (\<forall>j < i. prize_id (prizes s ! j) \<noteq> prize_id r)
       \<longrightarrow> prizes (handleSavePrize r s) = (prizes s)[i := r])
   \<and> (prize_id r \<notin> prize_id ` set (prizes s)
       \<longrightarrow> prizes (handleSavePrize r s) = prizes s @ [r])
   \<and> (distinct (map prize_id (prizes s))
       \<longrightarrow> distinct (map prize_id (prizes (upsert_all s rs)))
         \<and> length (prizes (upsert_all s rs)) = card (prize_id ` (set (prizes s) \<union> set rs))
         \<and> (\<forall>x \<in> set rs.
              last (filter (\<lambda>y. prize_id y = prize_id x) rs) \<in> set (prizes (upsert_all s rs))))"
proof (intro conjI allI impI ballI)
  fix i
  assume "i < length (prizes s)"
    and "prize_id (prizes s ! i) = prize_id r \<and> (\<forall>j < i. prize_id (prizes s ! j) \<noteq> prize_id r)"
  then show "prizes (handleSavePrize r s) = (prizes s)[i := r]"
    by (simp add: savePrize_updater_replace)
next
  assume "prize_id r \<notin> prize_id ` set (prizes s)"
  then show "prizes (handleSavePrize r s) = prizes s @ [r]"
    by (simp add: savePrize_updater_append)
next
  assume d: "distinct (map prize_id (prizes s))"
  then show d': "distinct (map prize_id (prizes (upsert_all s rs)))"
    by (rule upsert_all_distinct)
  have "length (prizes (upsert_all s rs)) = length (map prize_id (prizes (upsert_all s rs)))"
    by simp
  also have "\<dots> = card (set (map prize_id (prizes (upsert_all s rs))))"
    using d' by (simp only: distinct_card)
  also have "\<dots> = card (prize_id ` (set (prizes s) \<union> set rs))"
    using upsert_all_ids [of s rs] by simp
  finally show "length (prizes (upsert_all s rs)) = card (prize_id ` (set (prizes s) \<union> set rs))" .
next
  fix x assume "x \<in> set rs"
  then show "last (filter (\<lambda>y. prize_id y = prize_id x) rs) \<in> set (prizes (upsert_all s rs))"
    by (rule upsert_all_last)
qed

theorem upsert_replaces_or_appends_witness:
  "prizes (handleSavePrize (prize_B\<lparr>quantity := 7\<rparr>) store_AB) = [prize_A, prize_B\<lparr>quantity := 7\<rparr>]
   \<and> prizes (handleSavePrize prize_B (store_AB\<lparr>prizes := [prize_A]\<rparr>)) = [prize_A, prize_B]
   \<and> distinct (map prize_id (prizes (store_AB\<lparr>prizes := []\<rparr>)))
   \<and> length (prizes (upsert_all (store_AB\<lparr>prizes := []\<rparr>) [prize_A, prize_B, prize_A\<lparr>quantity := 5\<rparr>])) = 2
   \<and> prize_A\<lparr>quantity := 5\<rparr>
       \<in> set (prizes (upsert_all (store_AB\<lparr>prizes := []\<rparr>) [prize_A, prize_B, prize_A\<lparr>quantity := 5\<rparr>]))"
proof -
  have ne: "js ''1'' \<noteq> js ''2''" by (simp add: js_def)
  have h1: "(1::nat) < length (prizes store_AB) \<and> prize_id (prizes store_AB ! 1) = prize_id (prize_B\<lparr>quantity := 7\<rparr>)
      \<and> (\<forall>j < (1::nat). prize_id (prizes store_AB ! j) \<noteq> prize_id (prize_B\<lparr>quantity := 7\<rparr>))"
    using ne by (simp add: store_AB_def prize_A_def prize_B_def)
  have h2: "prize_id prize_B \<notin> prize_id ` set (prizes (store_AB\<lparr>prizes := [prize_A]\<rparr>))"
    using ne by (simp add: prize_A_def prize_B_def)
  have h3: "distinct (map prize_id (prizes (store_AB\<lparr>prizes := []\<rparr>)))" by simp
  have c: "card (prize_id ` (set (prizes (store_AB\<lparr>prizes := []\<rparr>))
        \<union> set [prize_A, prize_B, prize_A\<lparr>quantity := 5\<rparr>])) = 2"
  proof -
    have "{js ''1'', js ''2'', js ''1''} = {js ''1'', js ''2''}" by auto
    then show ?thesis using ne by (simp add: prize_A_def prize_B_def)
  qed
  have l: "last (filter (\<lambda>y. prize_id y = prize_id prize_A) [prize_A, prize_B, prize_A\<lparr>quantity := 5\<rparr>])
      = prize_A\<lparr>quantity := 5\<rparr>"
    using ne by (simp add: prize_A_def prize_B_def)
  from upsert_replaces_or_appends [of store_AB "prize_B\<lparr>quantity := 7\<rparr>" "[]"] h1
  have r1: "prizes (handleSavePrize (prize_B\<lparr>quantity := 7\<rparr>) store_AB) = (prizes store_AB)[1 := prize_B\<lparr>quantity := 7\<rparr>]"
    by blast
  from upsert_replaces_or_appends [of "store_AB\<lparr>prizes := [prize_A]\<rparr>" prize_B "[]"] h2
  have r2: "prizes (handleSavePrize prize_B (store_AB\<lparr>prizes := [prize_A]\<rparr>)) = prizes (store_AB\<lparr>prizes := [prize_A]\<rparr>) @ [prize_B]"
    by blast
  from upsert_replaces_or_appends [of "store_AB\<lparr>prizes := []\<rparr>" prize_A "[prize_A, prize_B, prize_A\<lparr>quantity := 5\<rparr>]"] h3
  have r3: "length (prizes (upsert_all (store_AB\<lparr>prizes := []\<rparr>) [prize_A, prize_B, prize_A\<lparr>quantity := 5\<rparr>]))
        = card (prize_id ` (set (prizes (store_AB\<lparr>prizes := []\<rparr>)) \<union> set [prize_A, prize_B, prize_A\<lparr>quantity := 5\<rparr>]))"
    and r4: "\<forall>x \<in> set [prize_A, prize_B, prize_A\<lparr>quantity := 5\<rparr>].
       last (filter (\<lambda>y. prize_id y = prize_id x) [prize_A, prize_B, prize_A\<lparr>quantity := 5\<rparr>])
         \<in> set (prizes (upsert_all (store_AB\<lparr>prizes := []\<rparr>) [prize_A, prize_B, prize_A\<lparr>quantity := 5\<rparr>]))"
    by blast+
  from r4 have r5: "last (filter (\<lambda>y. prize_id y = prize_id prize_A) [prize_A, prize_B, prize_A\<lparr>quantity := 5\<rparr>])
         \<in> set (prizes (upsert_all (store_AB\<lparr>prizes := []\<rparr>) [prize_A, prize_B, prize_A\<lparr>quantity := 5\<rparr>]))"
    by simp
  show ?thesis
    using r1 r2 h3 r3 r5 unfolding c l by (simp add: store_AB_def)
qed


text \<open>
  C5. \<open>handleQuantityChange\<close> keeps the length and the order of the collection; at every
  index, a record with the given id becomes the same record with the new quantity (any
  integer, negative ones included) and every other record is unchanged; no field other
  than \<open>quantity\<close> differs anywhere.
\<close>

theorem quantity_change_frame:
  "length (prizes (handleQuantityChange pid q s)) = length (prizes s)
   \<and> (\<forall>i < length (prizes s).
        (prize_id (prizes s ! i) = pid
           \<longrightarrow> prizes (handleQuantityChange pid q s) ! i = (prizes s ! i)\<lparr>quantity := q\<rparr>)
      \<and> (prize_id (prizes s ! i) \<noteq> pid
           \<longrightarrow> prizes (handleQuantityChange pid q s) ! i = prizes s ! i)
      \<and> prizes (handleQuantityChange pid q s) ! i = (prizes s ! i)
           \<lparr>quantity := quantity (prizes (handleQuantityChange pid q s) ! i)\<rparr>)"
  by (simp add: handleQuantityChange_def quantityChange_updater_def)

theorem quantity_change_frame_witness:
  "prize_id (prizes store_AB ! 1) = js ''2''
   \<and> prize_id (prizes store_AB ! 0) \<noteq> js ''2''
   \<and> prizes (handleQuantityChange (js ''2'') (- 4) store_AB) ! 1 = prize_B\<lparr>quantity := - 4\<rparr>
   \<and> prizes (handleQuantityChange (js ''2'') (- 4) store_AB) ! 0 = prize_A"
proof -
  have h: "prize_id (prizes store_AB ! 1) = js ''2'' \<and> prize_id (prizes store_AB ! 0) \<noteq> js ''2''"
    by (simp add: store_AB_def prize_A_def prize_B_def js_def)
  have l: "(0::nat) < length (prizes store_AB) \<and> (1::nat) < length (prizes store_AB)"
    by (simp add: store_AB_def)
  from quantity_change_frame [of "js ''2''" "- 4" store_AB] h l
  have "prizes (handleQuantityChange (js ''2'') (- 4) store_AB) ! 1 = (prizes store_AB ! 1)\<lparr>quantity := - 4\<rparr>"
    and "prizes (handleQuantityChange (js ''2'') (- 4) store_AB) ! 0 = prizes store_AB ! 0"
    by blast+
  with h show ?thesis by (simp add: store_AB_def)
qed

section \<open>Properties of the statistics\<close>

lemma double_of_int_exact: "\<bar>n\<bar> \<le> 9007199254740992 \<Longrightarrow> double_of_int n = n"
  by (simp add: double_of_int_def)

lemma quantity_magnitude_simps [simp]:
  "quantity_magnitude [] = 0"
  "quantity_magnitude (p # ps) = \<bar>quantity p\<bar> + quantity_magnitude ps"
  by (simp_all add: quantity_magnitude_def)

lemma quantity_magnitude_nonneg: "0 \<le> quantity_magnitude ps"
  by (induction ps) simp_all

lemma quantity_magnitude_filter: "quantity_magnitude (filter P ps) \<le> quantity_magnitude ps"
proof (induction ps)
  case Nil
  show ?case by simp
next
  case (Cons p ps)
  have "0 \<le> \<bar>quantity p\<bar>" by simp
  with Cons show ?case by (cases "P p") (simp_all add: add_increasing)
qed

lemma foldl_quantity_step:
  "\<bar>a\<bar> + quantity_magnitude ps \<le> 9007199254740992
     \<Longrightarrow> foldl quantity_step a ps = a + sum_list (map quantity ps)"
proof (induction ps arbitrary: a)
  case Nil
  show ?case by simp
next
  case (Cons p ps)
  have m: "0 \<le> quantity_magnitude ps" by (rule quantity_magnitude_nonneg)
  have b: "\<bar>a + quantity p\<bar> \<le> 9007199254740992"
    using Cons.prems m by (simp; linarith)
  then have s: "quantity_step a p = a + quantity p"
    by (simp add: quantity_step_def js_add_def double_of_int_exact)
  have "\<bar>a + quantity p\<bar> + quantity_magnitude ps \<le> 9007199254740992"
    using Cons.prems by (simp; linarith)
  then have "foldl quantity_step (a + quantity p) ps = a + quantity p + sum_list (map quantity ps)"
    by (rule Cons.IH)
  then show ?case by (simp add: s)
qed

lemma category_step_other: "category p \<noteq> c \<Longrightarrow> category_step acc p c = acc c"
  by (simp add: category_step_def dict_write_def)

lemma category_step_own:
  assumes "c \<notin> set inherited_keys" "category p = c"
    and "acc c = None \<and> a = 0 \<or> acc c = Some (Num a)"
    and "\<bar>a + quantity p\<bar> \<le> 9007199254740992"
  shows "category_step acc p c = Some (Num (a + quantity p))"
proof -
  have k: "c \<noteq> js ''__proto__''" using assms(1) by (auto simp: inherited_keys_def)
  have r: "or_zero (dict_read acc c) = Num a"
    using assms(1,3) by (auto simp: dict_read_def or_zero_def)
  show ?thesis
    using assms(2,4) k r
    by (simp add: category_step_def dict_write_def plus_quantity_def js_add_def
        double_of_int_exact)
qed

lemma foldl_category_step:
  assumes "c \<notin> set inherited_keys"
  shows "acc c = None \<and> a = 0 \<or> acc c = Some (Num a)
    \<Longrightarrow> \<bar>a\<bar> + quantity_magnitude (filter (\<lambda>p. category p = c) ps) \<le> 9007199254740992
    \<Longrightarrow> foldl category_step acc ps c =
        (if c \<in> category ` set ps
         then Some (Num (a + sum_list (map quantity (filter (\<lambda>p. category p = c) ps))))
         else acc c)"
proof (induction ps arbitrary: acc a)
  case Nil
  show ?case by simp
next
  case (Cons p ps)
  show ?case
  proof (cases "category p = c")
    case True
    have m: "0 \<le> quantity_magnitude (filter (\<lambda>p. category p = c) ps)"
      by (rule quantity_magnitude_nonneg)
    have b: "\<bar>a + quantity p\<bar> \<le> 9007199254740992"
      using Cons.prems(2) True m by (simp; linarith)
    have own: "category_step acc p c = Some (Num (a + quantity p))"
      using assms True Cons.prems(1) b by (rule category_step_own)
    have b': "\<bar>a + quantity p\<bar> + quantity_magnitude (filter (\<lambda>p. category p = c) ps)
        \<le> 9007199254740992"
      using Cons.prems(2) True by (simp; linarith)
    have ih: "foldl category_step (category_step acc p) ps c =
        (if c \<in> category ` set ps
         then Some (Num (a + quantity p + sum_list (map quantity (filter (\<lambda>p. category p = c) ps))))
         else category_step acc p c)"
      using own b' by (intro Cons.IH) simp_all
    have e: "c \<notin> category ` set ps \<Longrightarrow> filter (\<lambda>p. category p = c) ps = []"
      by (auto simp: filter_empty_conv)
    show ?thesis
      using True ih own e by simp
  next
    case False
    have other: "category_step acc p c = acc c"
      using False by (rule category_step_other)
    have ih: "foldl category_step (category_step acc p) ps c =
        (if c \<in> category ` set ps
         then Some (Num (a + sum_list (map quantity (filter (\<lambda>p. category p = c) ps))))
         else category_step acc p c)"
      using Cons.prems False other by (intro Cons.IH) simp_all
    show ?thesis
      using False ih other by auto
  qed
qed

lemma categories_not_inherited: "cat \<in> set prizeCategories \<Longrightarrow> cat \<notin> set inherited_keys"
  by (auto simp: prizeCategories_def inherited_keys_def cat_mascot_def cat_plush_def
      cat_figure_def cat_other_def js_def)

text \<open>
  C6, as the source has it. \<open>totalTypes\<close> is the number of records, for the empty
  collection too. The sums are sums of doubles: when the magnitudes of the quantities add
  up to at most \<open>2^53\<close>, \<open>totalQuantity\<close> is the sum of the quantities, and \<open>categoryCount\<close>
  holds, for each of the four categories that occurs in the collection, the sum of the
  quantities of its records. For a category without records the entry is absent, and the
  figure that is rendered for it, \<open>categoryCount[cat] || 0\<close>, is 0.
\<close>

theorem stats_aggregation:
  "totalTypes (stats ps) = length ps
   \<and> (quantity_magnitude ps \<le> 9007199254740992
        \<longrightarrow> totalQuantity (stats ps) = sum_list (map quantity ps))
   \<and> (\<forall>cat \<in> set prizeCategories.
        (cat \<notin> category ` set ps
           \<longrightarrow> categoryCount (stats ps) cat = None \<and> category_shown (stats ps) cat = Num 0)
      \<and> (cat \<in> category ` set ps \<and> quantity_magnitude ps \<le> 9007199254740992
           \<longrightarrow> categoryCount (stats ps) cat
               = Some (Num (sum_list (map quantity (filter (\<lambda>p. category p = cat) ps))))))"
proof (intro conjI impI ballI)
  show "totalTypes (stats ps) = length ps" by (simp add: stats_def)
next
  assume "quantity_magnitude ps \<le> 9007199254740992"
  then show "totalQuantity (stats ps) = sum_list (map quantity ps)"
    using foldl_quantity_step [of 0 ps] by (simp add: stats_def)
next
  fix cat assume c: "cat \<in> set prizeCategories" and a: "cat \<notin> category ` set ps"
  have n: "cat \<notin> set inherited_keys" using c by (rule categories_not_inherited)
  have f: "filter (\<lambda>p. category p = cat) ps = []"
    using a by (auto simp: filter_empty_conv)
  have "foldl category_step Map.empty ps cat = None"
    using foldl_category_step [OF n, of Map.empty 0 ps] a f by simp
  then show e: "categoryCount (stats ps) cat = None" by (simp add: stats_def)
  show "category_shown (stats ps) cat = Num 0"
    using e n by (simp add: category_shown_def dict_read_def or_zero_def)
next
  fix cat assume c: "cat \<in> set prizeCategories"
    and a: "cat \<in> category ` set ps \<and> quantity_magnitude ps \<le> 9007199254740992"
  have n: "cat \<notin> set inherited_keys" using c by (rule categories_not_inherited)
  have "quantity_magnitude (filter (\<lambda>p. category p = cat) ps) \<le> 9007199254740992"
    using a quantity_magnitude_filter [of "\<lambda>p. category p = cat" ps] by linarith
  then have "foldl category_step Map.empty ps cat
      = Some (Num (sum_list (map quantity (filter (\<lambda>p. category p = cat) ps))))"
    using foldl_category_step [OF n, of Map.empty 0 ps] a by simp
  then show "categoryCount (stats ps) cat
      = Some (Num (sum_list (map quantity (filter (\<lambda>p. category p = cat) ps))))"
    by (simp add: stats_def)
qed

theorem stats_aggregation_witness:
  "quantity_magnitude [prize_A\<lparr>category := cat_mascot\<rparr>] \<le> 9007199254740992
   \<and> totalQuantity (stats [prize_A\<lparr>category := cat_mascot\<rparr>]) = 2
   \<and> cat_other \<in> set prizeCategories \<and> cat_mascot \<in> set prizeCategories
   \<and> cat_other \<notin> category ` set [prize_A\<lparr>category := cat_mascot\<rparr>]
   \<and> cat_mascot \<in> category ` set [prize_A\<lparr>category := cat_mascot\<rparr>]
   \<and> categoryCount (stats [prize_A\<lparr>category := cat_mascot\<rparr>]) cat_other = None
   \<and> category_shown (stats [prize_A\<lparr>category := cat_mascot\<rparr>]) cat_other = Num 0
   \<and> categoryCount (stats [prize_A\<lparr>category := cat_mascot\<rparr>]) cat_mascot = Some (Num 2)"
proof -
  let ?ps = "[prize_A\<lparr>category := cat_mascot\<rparr>]"
  have q: "quantity_magnitude ?ps \<le> 9007199254740992"
    by (simp add: prize_A_def)
  have m1: "cat_other \<in> set prizeCategories" and m2: "cat_mascot \<in> set prizeCategories"
    by (simp_all add: prizeCategories_def)
  have h1: "cat_other \<notin> category ` set ?ps" and h2: "cat_mascot \<in> category ` set ?ps"
    by (simp_all add: cat_other_def cat_mascot_def)
  have s: "sum_list (map quantity ?ps) = 2"
    "sum_list (map quantity (filter (\<lambda>p. category p = cat_mascot) ?ps)) = 2"
    by (simp_all add: prize_A_def)
  note t = stats_aggregation [of ?ps]
  have r0: "totalQuantity (stats ?ps) = 2"
    using t [THEN conjunct2, THEN conjunct1, THEN mp, OF q] s(1) by simp
  note b1 = t [THEN conjunct2, THEN conjunct2, THEN bspec, OF m1, THEN conjunct1, THEN mp, OF h1]
  have r2: "categoryCount (stats ?ps) cat_mascot = Some (Num 2)"
    using t [THEN conjunct2, THEN conjunct2, THEN bspec, OF m2, THEN conjunct2, THEN mp,
        OF conjI [OF h2 q]] s(2) by simp
  show ?thesis
    by (intro conjI q r0 m1 m2 h1 h2 b1 [THEN conjunct1] b1 [THEN conjunct2] r2)
qed

text \<open>
  C6 as stated fails twice. First, for the empty collection the dictionary has no entry
  for the category \<open>cat_other\<close>, where the claim has the entry 0. Second, the sums are
  sums of doubles: for the quantities \<open>2^53\<close> and 1 the total is \<open>2^53\<close>, not their sum.
\<close>

theorem stats_counterexample:
  "categoryCount (stats []) cat_other = None
   \<and> categoryCount (stats []) cat_other \<noteq> Some (Num 0)
   \<and> totalQuantity (stats [prize_A\<lparr>quantity := 9007199254740992\<rparr>, prize_A\<lparr>quantity := 1\<rparr>])
       = 9007199254740992
   \<and> sum_list (map quantity [prize_A\<lparr>quantity := 9007199254740992\<rparr>, prize_A\<lparr>quantity := 1\<rparr>])
       = 9007199254740993"
proof -
  have b: "bitlen 9007199254740993 = 54" by code_simp
  have d: "double_of_int 9007199254740993 = 9007199254740992"
    by (simp add: double_of_int_def b Let_def)
  have t: "totalQuantity (stats [prize_A\<lparr>quantity := 9007199254740992\<rparr>, prize_A\<lparr>quantity := 1\<rparr>])
       = 9007199254740992"
    by (simp add: stats_def quantity_step_def js_add_def double_of_int_exact d)
  show ?thesis
    using t by (simp add: stats_def)
qed

section \<open>The dirty flag\<close>
















lemma length_storage_key: "length storage_key = 17"
  by (simp add: storage_key_def js_def)



text \<open>
  The collection that a save writes is the one of the moment the save was pressed. A
  record saved between the press and the firing of the timer is in the collection but not
  in the slot, and the flag is cleared all the same.
\<close>

lemma save_writes_captured_collection:
  "run 2000 [SaveClicked, SavePrize prize_B, TimerFires 0]
       (dirty_AB\<lparr>prizes := [prize_A]\<rparr>)
     = Some (fire_timer 2000 0
         (handleSavePrize prize_B (handleSaveToStorage (dirty_AB\<lparr>prizes := [prize_A]\<rparr>))))
   \<and> prizes (fire_timer 2000 0
         (handleSavePrize prize_B (handleSaveToStorage (dirty_AB\<lparr>prizes := [prize_A]\<rparr>))))
       = [prize_A, prize_B]
   \<and> localStorage (fire_timer 2000 0
         (handleSavePrize prize_B (handleSaveToStorage (dirty_AB\<lparr>prizes := [prize_A]\<rparr>))))
         storage_key
       = Some (JSON_stringify [prize_A])
   \<and> \<not> isDirty (fire_timer 2000 0
         (handleSavePrize prize_B (handleSaveToStorage (dirty_AB\<lparr>prizes := [prize_A]\<rparr>))))"
proof -
  let ?s = "handleSavePrize prize_B (handleSaveToStorage (dirty_AB\<lparr>prizes := [prize_A]\<rparr>))"
  have l: "length (JSON_stringify [prize_A]) \<le> 1000" by code_simp
  have tm: "timers ?s = [SaveTimer [prize_A]]"
    by (simp add: handleSaveToStorage_def handleSavePrize_def dirty_AB_def store_AB_def)
  have ne: "prize_id prize_A \<noteq> prize_id prize_B"
    by (simp add: prize_A_def prize_B_def js_def)
  have pr: "prizes ?s = [prize_A, prize_B]"
    using ne by (simp add: handleSaveToStorage_def handleSavePrize_def savePrize_updater_def)
  have f: "fire_timer 2000 0 ?s
      = ?s\<lparr>timers := [StatusTimer],
            localStorage := (localStorage ?s)(storage_key \<mapsto> JSON_stringify [prize_A]),
            isDirty := False, saveStatus := Saved\<rparr>"
    using l by (simp add: fire_timer_def tm save_timeout_def localStorage_setItem_def
        length_storage_key)
  show ?thesis
    by (simp add: f pr del: prizes_handleSavePrize)
qed


section \<open>Round trip of a collection through \<open>JSON.stringify\<close> and \<open>JSON.parse\<close>\<close>

lemma unat_of_nat_16: "n < 65536 \<Longrightarrow> unat (of_nat n :: 16 word) = n"
  by (simp only: unat_of_nat) simp

lemma unat_hex_char: "d < 16 \<Longrightarrow> unat (hex_char d) = (if d < 10 then 48 + d else 87 + d)"
proof (cases "d < 10")
  case True
  then have "unat (of_nat (48 + d) :: 16 word) = 48 + d" by (intro unat_of_nat_16) simp
  with True show ?thesis by (simp only: hex_char_def if_True)
next
  case False
  assume "d < 16"
  then have "unat (of_nat (87 + d) :: 16 word) = 87 + d" by (intro unat_of_nat_16) simp
  with False show ?thesis by (simp only: hex_char_def if_False)
qed

lemma hex_value_hex_char: "d < 16 \<Longrightarrow> hex_value (hex_char d) = Some d"
  by (simp add: hex_value_def unat_hex_char Let_def)

lemma nibbles_eq:
  fixes n :: nat
  assumes "n < 65536"
  shows "n div 4096 mod 16 * 4096 + n div 256 mod 16 * 256 + n div 16 mod 16 * 16 + n mod 16 = n"
proof -
  define A B C where "A = n div 4096" and "B = n div 256" and "C = n div 16"
  define b c d where "b = B mod 16" and "c = C mod 16" and "d = n mod 16"
  have 1: "n = C * 16 + d" by (simp add: C_def d_def)
  have "C div 16 = B" by (simp add: C_def B_def div_mult2_eq)
  then have 2: "C = B * 16 + c" using div_mult_mod_eq [of C 16] by (simp add: c_def)
  have "B div 16 = A" by (simp add: A_def B_def div_mult2_eq)
  then have 3: "B = A * 16 + b" using div_mult_mod_eq [of B 16] by (simp add: b_def)
  have "A < 16" using assms by (simp add: A_def less_mult_imp_div_less)
  then have 4: "A mod 16 = A" by simp
  have "A * 4096 + b * 256 + c * 16 + d = n"
    using 1 2 3 by linarith
  then show ?thesis
    unfolding A_def [symmetric] B_def [symmetric] C_def [symmetric] 4
      b_def [symmetric] c_def [symmetric] d_def [symmetric] .
qed

lemma unhex4_UnicodeEscape:
  "unhex4 (hex_char (unat c div 4096 mod 16)) (hex_char (unat c div 256 mod 16))
          (hex_char (unat c div 16 mod 16)) (hex_char (unat c mod 16)) = Some c"
proof -
  have "unat c < 65536" using unsigned_less [of c] by simp
  then have eq: "unat c div 4096 mod 16 * 4096 + unat c div 256 mod 16 * 256
      + unat c div 16 mod 16 * 16 + unat c mod 16 = unat c"
    by (rule nibbles_eq)
  have "unhex4 (hex_char (unat c div 4096 mod 16)) (hex_char (unat c div 256 mod 16))
          (hex_char (unat c div 16 mod 16)) (hex_char (unat c mod 16))
      = Some (of_nat (unat c div 4096 mod 16 * 4096 + unat c div 256 mod 16 * 256
      + unat c div 16 mod 16 * 16 + unat c mod 16))"
    unfolding unhex4_def by (simp only: hex_value_hex_char mod_less_divisor zero_less_numeral
        prod.case option.case)
  also have "\<dots> = Some (of_nat (unat c))" by (simp only: eq)
  also have "\<dots> = Some c" by simp
  finally show ?thesis .
qed

lemma parse_after_escape:
  "parse_string_body (UnicodeEscape c @ cs) = cons_result c (parse_string_body cs)"
  by (simp add: UnicodeEscape_def unhex4_UnicodeEscape)

lemma surrogate_not_special:
  "is_high_surrogate c \<or> is_low_surrogate c \<Longrightarrow> c \<noteq> 0x22 \<and> c \<noteq> 0x5C \<and> \<not> c < 0x20"
  by (auto simp: is_high_surrogate_def is_low_surrogate_def word_le_nat_alt word_less_nat_alt)

lemma cons_result_Some [simp]: "cons_result x (Some (xs, r)) = Some (x # xs, r)"
  by (simp add: cons_result_def)

lemma parse_string_body_plain:
  "c \<noteq> 0x22 \<Longrightarrow> c \<noteq> 0x5C \<Longrightarrow> \<not> c < 0x20
     \<Longrightarrow> parse_string_body (c # cs) = cons_result c (parse_string_body cs)"
  by simp

lemma parse_string_body_escaped:
  "unescape e = Some u \<Longrightarrow> e \<noteq> 0x75
     \<Longrightarrow> parse_string_body (0x5C # e # cs) = cons_result u (parse_string_body cs)"
  by simp

lemma quote_body_step:
  "(\<exists>e. quote_body (c # cs) = 0x5C # e # quote_body cs \<and> unescape e = Some c \<and> e \<noteq> 0x75)
   \<or> quote_body (c # cs) = UnicodeEscape c @ quote_body cs
   \<or> (\<exists>d ds. cs = d # ds \<and> quote_body (c # cs) = c # d # quote_body ds
          \<and> plain_char c \<and> plain_char d)
   \<or> (quote_body (c # cs) = c # quote_body cs \<and> plain_char c)"
proof -
  consider "c = 0x22" | "c = 0x5C" | "c = 0x08" | "c = 0x09" | "c = 0x0A" | "c = 0x0C" | "c = 0x0D"
    | "c \<notin> {0x22, 0x5C, 0x08, 0x09, 0x0A, 0x0C, 0x0D}" by auto
  then show ?thesis
  proof cases
    case 8
    then have ne: "c \<noteq> 0x22" "c \<noteq> 0x5C" "c \<noteq> 0x08" "c \<noteq> 0x09" "c \<noteq> 0x0A" "c \<noteq> 0x0C" "c \<noteq> 0x0D"
      by auto
    show ?thesis
    proof (cases "c < 0x20")
      case True
      with ne have "quote_body (c # cs) = UnicodeEscape c @ quote_body cs" by simp
      then show ?thesis by blast
    next
      case nc: False
      with ne have pc: "plain_char c" by (simp add: plain_char_def)
      show ?thesis
      proof (cases "is_high_surrogate c")
        case True
        show ?thesis
        proof (cases cs)
          case Nil
          with ne nc True have "quote_body (c # cs) = UnicodeEscape c @ quote_body cs" by simp
          then show ?thesis by blast
        next
          case (Cons d ds)
          show ?thesis
          proof (cases "is_low_surrogate d")
            case ld: True
            with ne nc True Cons have "quote_body (c # cs) = c # d # quote_body ds" by simp
            moreover have "plain_char d"
              using ld surrogate_not_special [of d] by (simp add: plain_char_def)
            ultimately show ?thesis using Cons pc by blast
          next
            case False
            with ne nc True Cons have "quote_body (c # cs) = UnicodeEscape c @ quote_body cs"
              by simp
            then show ?thesis by blast
          qed
        qed
      next
        case nh: False
        show ?thesis
        proof (cases "is_low_surrogate c")
          case True
          with ne nc nh have "quote_body (c # cs) = UnicodeEscape c @ quote_body cs" by simp
          then show ?thesis by blast
        next
          case False
          with ne nc nh have "quote_body (c # cs) = c # quote_body cs" by simp
          with pc show ?thesis by blast
        qed
      qed
    qed
  qed (simp_all add: unescape_def)
qed

lemma parse_string_body_quote_body:
  "parse_string_body (quote_body s @ 0x22 # rest) = Some (s, rest)"
proof (induction "length s" arbitrary: s rule: less_induct)
  case less
  note parse_string_body.simps [simp del] quote_body.simps [simp del]
  show ?case
  proof (cases s)
    case Nil
    then show ?thesis by (simp add: parse_string_body.simps quote_body.simps)
  next
    case (Cons c cs)
    have ih: "parse_string_body (quote_body cs @ 0x22 # rest) = Some (cs, rest)"
      using less [of cs] Cons by simp
    from quote_body_step [of c cs]
    consider (esc) e where "quote_body (c # cs) = 0x5C # e # quote_body cs"
        "unescape e = Some c" "e \<noteq> 0x75"
      | (uni) "quote_body (c # cs) = UnicodeEscape c @ quote_body cs"
      | (pair) d ds where "cs = d # ds" "quote_body (c # cs) = c # d # quote_body ds"
        "plain_char c" "plain_char d"
      | (plain) "quote_body (c # cs) = c # quote_body cs" "plain_char c"
      by blast
    then show ?thesis
    proof cases
      case esc
      have "parse_string_body (0x5C # e # quote_body cs @ 0x22 # rest)
          = cons_result c (parse_string_body (quote_body cs @ 0x22 # rest))"
        using esc(2,3) by (rule parse_string_body_escaped)
      with esc(1) ih Cons show ?thesis by simp
    next
      case uni
      have "parse_string_body (UnicodeEscape c @ quote_body cs @ 0x22 # rest)
          = cons_result c (parse_string_body (quote_body cs @ 0x22 # rest))"
        by (rule parse_after_escape)
      with uni ih Cons show ?thesis by simp
    next
      case pair
      have ih2: "parse_string_body (quote_body ds @ 0x22 # rest) = Some (ds, rest)"
        using less [of ds] Cons pair(1) by simp
      have "parse_string_body (c # d # quote_body ds @ 0x22 # rest)
          = cons_result c (parse_string_body (d # quote_body ds @ 0x22 # rest))"
        using pair(3) by (intro parse_string_body_plain) (simp_all add: plain_char_def)
      moreover have "parse_string_body (d # quote_body ds @ 0x22 # rest)
          = cons_result d (parse_string_body (quote_body ds @ 0x22 # rest))"
        using pair(4) by (intro parse_string_body_plain) (simp_all add: plain_char_def)
      ultimately show ?thesis using pair(1,2) ih2 Cons by simp
    next
      case plain
      have "parse_string_body (c # quote_body cs @ 0x22 # rest)
          = cons_result c (parse_string_body (quote_body cs @ 0x22 # rest))"
        using plain(2) by (intro parse_string_body_plain) (simp_all add: plain_char_def)
      with plain(1) ih Cons show ?thesis by simp
    qed
  qed
qed

lemma parse_string_QuoteJSONString:
  "parse_string_body (tl (QuoteJSONString s) @ rest) = Some (s, rest)"
  by (simp add: QuoteJSONString_def parse_string_body_quote_body)

lemma unat_digit_char: "d < 10 \<Longrightarrow> unat (digit_char d) = 48 + d"
  unfolding digit_char_def by (intro unat_of_nat_16) simp

lemma is_digit_digit_char: "d < 10 \<Longrightarrow> is_digit (digit_char d)"
  by (simp add: is_digit_def word_le_nat_alt unat_digit_char)

lemma digit_char_zero: "d < 10 \<Longrightarrow> digit_char d = 0x30 \<longleftrightarrow> d = 0"
proof
  assume "d < 10" "digit_char d = 0x30"
  then have "unat (digit_char d) = 48" by simp
  with \<open>d < 10\<close> show "d = 0" by (simp add: unat_digit_char)
next
  assume "d = 0" then show "digit_char d = 0x30" by (simp add: digit_char_def)
qed

lemma digit_char_not_minus: "d < 10 \<Longrightarrow> digit_char d \<noteq> 0x2D"
proof
  assume "d < 10" "digit_char d = 0x2D"
  then have "unat (digit_char d) = 45" by simp
  with \<open>d < 10\<close> show False by (simp add: unat_digit_char)
qed

lemma digits_nonempty: "digits n \<noteq> []"
  by (subst digits.simps) simp

lemma digits_all: "c \<in> set (digits n) \<Longrightarrow> is_digit c"
proof (induction n arbitrary: c rule: digits.induct)
  case (1 n)
  show ?case
  proof (cases "n < 10")
    case True
    with "1.prems" show ?thesis by (subst (asm) digits.simps) (simp add: is_digit_digit_char)
  next
    case False
    with "1.prems" have "c \<in> set (digits (n div 10)) \<or> c = digit_char (n mod 10)"
      by (subst (asm) digits.simps) auto
    with "1.IH" False show ?thesis by (auto simp: is_digit_digit_char)
  qed
qed

lemma digits_value_snoc:
  "digits_value (ds @ [c]) = 10 * digits_value ds + (unat c - 48)"
  by (simp add: digits_value_def)

lemma digits_value_digits: "digits_value (digits n) = n"
proof (induction n rule: digits.induct)
  case (1 n)
  show ?case
  proof (cases "n < 10")
    case True
    then have "digits n = [digit_char n]" by (subst digits.simps) simp
    with True show ?thesis by (simp add: digits_value_def unat_digit_char)
  next
    case False
    then have d: "digits n = digits (n div 10) @ [digit_char (n mod 10)]"
      by (subst digits.simps) simp
    have "digits_value (digits (n div 10)) = n div 10" using "1.IH" False by simp
    then show ?thesis
      unfolding d digits_value_snoc by (simp add: unat_digit_char)
  qed
qed

lemma hd_digits: "hd (digits n) = 0x30 \<Longrightarrow> n = 0"
proof (induction n rule: digits.induct)
  case (1 n)
  show ?case
  proof (cases "n < 10")
    case True
    then have "digits n = [digit_char n]" by (subst digits.simps) simp
    with "1.prems" True show ?thesis by (simp add: digit_char_zero)
  next
    case False
    then have d: "digits n = digits (n div 10) @ [digit_char (n mod 10)]"
      by (subst digits.simps) simp
    with "1.prems" have "hd (digits (n div 10)) = 0x30" by (simp add: digits_nonempty)
    with "1.IH" False have "n div 10 = 0" by simp
    with False show ?thesis by simp
  qed
qed

lemma digits_zero: "digits 0 = [0x30]"
  by (subst digits.simps) (simp add: digit_char_def)

lemma no_leading_zero: "\<not> (length (digits n) > 1 \<and> hd (digits n) = 0x30)"
  using hd_digits [of n] digits_zero by auto

lemma hd_digits_not_minus: "hd (digits n) \<noteq> 0x2D"
proof -
  have "hd (digits n) \<in> set (digits n)" using digits_nonempty by simp
  then have "is_digit (hd (digits n))" by (rule digits_all)
  then show ?thesis by (auto simp: is_digit_def)
qed

lemma parse_fraction_end: "number_end rest \<Longrightarrow> parse_fraction rest = Some (0, rest)"
  by (cases rest) (simp_all add: number_end_def parse_fraction_def)

lemma parse_exponent_end: "number_end rest \<Longrightarrow> parse_exponent rest = Some (0, rest)"
  by (cases rest) (simp_all add: number_end_def parse_exponent_def)

lemma parse_int_part_digits:
  assumes "number_end rest" "ip \<noteq> []" "\<forall>c \<in> set ip. is_digit c"
    and "\<not> (length ip > 1 \<and> hd ip = 0x30)"
  shows "parse_int_part (ip @ rest) = Some (digits_value ip, rest)"
proof -
  have t: "takeWhile is_digit (ip @ rest) = ip" "dropWhile is_digit (ip @ rest) = rest"
    using assms(1,3) by (cases rest; simp add: number_end_def)+
  show ?thesis
    unfolding parse_int_part_def t using assms(2,4) by simp
qed

lemma parse_number_integer:
  assumes "number_end rest" "ip \<noteq> []" "\<forall>c \<in> set ip. is_digit c"
    and "\<not> (length ip > 1 \<and> hd ip = 0x30)"
  shows "parse_number (ip @ rest) = Some (of_nat (digits_value ip), rest)"
    and "parse_number (0x2D # ip @ rest) = Some (- of_nat (digits_value ip), rest)"
proof -
  have "is_digit (hd ip)" using assms(2,3) by simp
  then have m: "hd ip \<noteq> 0x2D" by (auto simp: is_digit_def)
  note p = parse_int_part_digits [OF assms] parse_fraction_end [OF assms(1)]
    parse_exponent_end [OF assms(1)]
  show "parse_number (ip @ rest) = Some (of_nat (digits_value ip), rest)"
    unfolding parse_number_def using assms(2) m by (simp add: p scale10_def)
  show "parse_number (0x2D # ip @ rest) = Some (- of_nat (digits_value ip), rest)"
    unfolding parse_number_def by (simp add: p scale10_def)
qed

lemma parse_number_digits:
  assumes "number_end rest"
  shows "parse_number (digits n @ rest) = Some (of_nat n, rest)"
    and "parse_number (0x2D # digits n @ rest) = Some (- of_nat n, rest)"
  using parse_number_integer [OF assms digits_nonempty, of n] digits_all no_leading_zero [of n]
  by (simp_all add: digits_value_digits)

lemma parse_number_toString:
  assumes "number_end rest"
  shows "parse_number (number_toString q @ rest) = Some (of_int q, rest)"
proof (cases "q < 0")
  case True
  then have v: "- rat_of_nat (nat (- q)) = of_int q" by simp
  have "parse_number (number_toString q @ rest) = parse_number (0x2D # digits (nat (- q)) @ rest)"
    using True by (simp add: number_toString_def)
  also have "\<dots> = Some (- of_nat (nat (- q)), rest)"
    by (rule parse_number_digits(2) [OF assms])
  finally show ?thesis unfolding v .
next
  case False
  then have v: "rat_of_nat (nat q) = of_int q" by simp
  have "parse_number (number_toString q @ rest) = parse_number (digits (nat q) @ rest)"
    using False by (simp add: number_toString_def)
  also have "\<dots> = Some (of_nat (nat q), rest)"
    by (rule parse_number_digits(1) [OF assms])
  finally show ?thesis unfolding v .
qed

lemma parsesD:
  "parses m t v \<Longrightarrow> m \<le> n \<Longrightarrow> all_ws ws \<Longrightarrow> number_end rest
     \<Longrightarrow> parse_value n (ws @ t @ rest) = Some (v, rest)"
  by (simp add: parses_def)

lemma parses_mono: "parses m t v \<Longrightarrow> m \<le> m' \<Longrightarrow> parses m' t v"
  by (simp add: parses_def)

lemma skip_ws_append: "all_ws ws \<Longrightarrow> skip_ws (ws @ cs) = skip_ws cs"
  by (simp add: all_ws_def skip_ws_def dropWhile_append2)

lemma skip_ws_Cons: "\<not> is_ws c \<Longrightarrow> skip_ws (c # cs) = c # cs"
  by (simp add: skip_ws_def)

lemma skip_ws_skip: "all_ws ws \<Longrightarrow> \<not> is_ws c \<Longrightarrow> skip_ws (ws @ c # cs) = c # cs"
  by (simp add: skip_ws_append skip_ws_Cons)

lemma all_ws_simps [simp]:
  "all_ws []" "all_ws (c # cs) \<longleftrightarrow> is_ws c \<and> all_ws cs"
  "all_ws (xs @ ys) \<longleftrightarrow> all_ws xs \<and> all_ws ys"
  by (auto simp: all_ws_def)

lemma map_result_Some [simp]: "map_result f (Some (x, r)) = Some (f x, r)"
  by (simp add: map_result_def)

lemma parses_string: "parses (Suc 0) (QuoteJSONString s) (JString s)"
  unfolding parses_def
proof (intro allI impI)
  fix n :: nat and ws rest :: js_string
  assume "Suc 0 \<le> n" "all_ws ws"
  then obtain k where n: "n = Suc k" by (cases n) auto
  have "skip_ws (ws @ QuoteJSONString s @ rest) = 0x22 # quote_body s @ 0x22 # rest"
    using \<open>all_ws ws\<close> by (simp add: QuoteJSONString_def skip_ws_skip is_ws_def)
  then show "parse_value n (ws @ QuoteJSONString s @ rest) = Some (JString s, rest)"
    unfolding n by (simp add: parse_string_body_quote_body)
qed

lemma number_toString_head:
  "\<exists>c cs. number_toString q = c # cs \<and> (c = 0x2D \<or> is_digit c) \<and> \<not> is_ws c
      \<and> c \<noteq> 0x5B \<and> c \<noteq> 0x7B \<and> c \<noteq> 0x22"
proof -
  have d: "\<exists>c cs. digits n = c # cs \<and> is_digit c" for n
    using digits_nonempty [of n] digits_all [of _ n] by (cases "digits n") auto
  have w: "is_digit c \<Longrightarrow> \<not> is_ws c \<and> c \<noteq> 0x5B \<and> c \<noteq> 0x7B \<and> c \<noteq> 0x22" for c
    by (auto simp: is_digit_def is_ws_def)
  show ?thesis
  proof (cases "q < 0")
    case True
    then show ?thesis by (simp add: number_toString_def is_ws_def)
  next
    case False
    with d [of "nat q"] w show ?thesis by (auto simp: number_toString_def)
  qed
qed

lemma parses_number: "parses (Suc 0) (number_toString q) (JNumber (of_int q))"
  unfolding parses_def
proof (intro allI impI)
  fix n :: nat and ws rest :: js_string
  assume "Suc 0 \<le> n" "all_ws ws" "number_end rest"
  then obtain k where n: "n = Suc k" by (cases n) auto
  from number_toString_head [of q] obtain c cs where
    c: "number_toString q = c # cs" "c = 0x2D \<or> is_digit c" "\<not> is_ws c"
       "c \<noteq> 0x5B" "c \<noteq> 0x7B" "c \<noteq> 0x22"
    by blast
  have s: "skip_ws (ws @ number_toString q @ rest) = c # cs @ rest"
    using \<open>all_ws ws\<close> c(1,3) by (simp add: skip_ws_skip)
  have p: "parse_number (c # cs @ rest) = Some (of_int q, rest)"
    using parse_number_toString [OF \<open>number_end rest\<close>, of q] c(1) by simp
  show "parse_value n (ws @ number_toString q @ rest) = Some (JNumber (of_int q), rest)"
    unfolding n using s c(2,4,5,6) p by simp
qed

lemma wrap_partial_form:
  assumes "partial \<noteq> []"
  obtains ws0 ws1 where
    "wrap_partial gap stepback opening closing partial
       = opening # ws0 @ join (0x2C # ws0) partial @ ws1 @ [closing]"
    "all_ws gap \<Longrightarrow> all_ws stepback \<Longrightarrow> all_ws ws0 \<and> all_ws ws1"
proof (cases "gap = []")
  case True
  with assms have "wrap_partial gap stepback opening closing partial
       = opening # [] @ join (0x2C # []) partial @ [] @ [closing]"
    by (simp add: wrap_partial_def)
  then show thesis using that [of "[]" "[]"] by simp
next
  case False
  with assms have "wrap_partial gap stepback opening closing partial
       = opening # (0x0A # stepback @ gap) @ join (0x2C # (0x0A # stepback @ gap)) partial
          @ (0x0A # stepback) @ [closing]"
    by (simp add: wrap_partial_def Let_def)
  then show thesis using that [of "0x0A # stepback @ gap" "0x0A # stepback"]
    by (simp add: is_ws_def)
qed

lemma number_end_Cons:
  "\<not> is_digit c \<Longrightarrow> c \<noteq> 0x2E \<Longrightarrow> c \<noteq> 0x65 \<Longrightarrow> c \<noteq> 0x45 \<Longrightarrow> number_end (c # cs)"
  by (simp add: number_end_def)

lemma number_end_ws: "all_ws ws \<Longrightarrow> number_end (ws @ 0x7D # cs) \<and> number_end (ws @ 0x5D # cs)"
  by (cases ws) (auto simp: number_end_def is_digit_def is_ws_def)

lemma number_end_comma: "number_end (0x2C # cs)"
  by (simp add: number_end_def is_digit_def)

lemma parse_members_step:
  assumes ws: "all_ws ws0"
    and v: "parse_value n (sp @ t @ tail) = Some (v, tail)"
    and sp: "sp = [] \<or> sp = [0x20]"
  shows "parse_members (Suc n) (ws0 @ QuoteJSONString k @ 0x3A # sp @ t @ tail)
      = (case skip_ws tail of
           [] \<Rightarrow> None
         | c # r \<Rightarrow> if c = 0x2C then cons_result (k, v) (parse_members n r)
                    else if c = 0x7D then Some ([(k, v)], r) else None)"
proof -
  have 1: "skip_ws (ws0 @ QuoteJSONString k @ 0x3A # sp @ t @ tail)
      = 0x22 # quote_body k @ 0x22 # 0x3A # sp @ t @ tail"
    using ws by (simp add: QuoteJSONString_def skip_ws_skip is_ws_def)
  have 2: "parse_string_body (quote_body k @ 0x22 # 0x3A # sp @ t @ tail)
      = Some (k, 0x3A # sp @ t @ tail)"
    by (rule parse_string_body_quote_body)
  have 3: "skip_ws (0x3A # sp @ t @ tail) = 0x3A # sp @ t @ tail"
    by (simp add: skip_ws_Cons is_ws_def)
  show ?thesis
    by (simp add: 1 2 3 v)
qed

lemma parse_members_join:
  assumes "all_ws ws0" "all_ws ws1" "sp = [] \<or> sp = [0x20]"
  shows "kvs \<noteq> [] \<Longrightarrow> \<forall>(k, t, v) \<in> set kvs. parses m t v \<Longrightarrow> m + length kvs \<le> n
    \<Longrightarrow> parse_members n
          (ws0 @ join (0x2C # ws0) (map (\<lambda>(k, t, v). QuoteJSONString k @ 0x3A # sp @ t) kvs)
             @ ws1 @ 0x7D # rest)
        = Some (map (\<lambda>(k, t, v). (k, v)) kvs, rest)"
proof (induction kvs arbitrary: n rule: list_nonempty_induct)
  case (single x)
  obtain k t v where x: "x = (k, t, v)" by (cases x) auto
  from single obtain n' where n: "n = Suc n'" "m \<le> n'" by (cases n) auto
  have spw: "all_ws sp" using assms(3) by (auto simp: is_ws_def)
  have p: "parse_value n' (sp @ t @ ws1 @ 0x7D # rest) = Some (v, ws1 @ 0x7D # rest)"
    using single(1) x n(2) spw number_end_ws [OF assms(2)] by (intro parsesD [of m]) auto
  have s: "skip_ws (ws1 @ 0x7D # rest) = 0x7D # rest"
    using assms(2) by (simp add: skip_ws_skip is_ws_def)
  show ?case
    unfolding n
    using parse_members_step [OF assms(1) p assms(3), of k] s x by simp
next
  case (cons x xs)
  obtain k t v where x: "x = (k, t, v)" by (cases x) auto
  from cons.prems obtain n' where n: "n = Suc n'" "m \<le> n'" "m + length xs \<le> n'"
    by (cases n) auto
  obtain y ys where xs: "xs = y # ys" using cons.hyps by (cases xs) auto
  let ?f = "\<lambda>(k, t, v). QuoteJSONString k @ 0x3A # sp @ t"
  let ?tail = "0x2C # ws0 @ join (0x2C # ws0) (map ?f xs) @ ws1 @ 0x7D # rest"
  have spw: "all_ws sp" using assms(3) by (auto simp: is_ws_def)
  have j: "ws0 @ join (0x2C # ws0) (map ?f (x # xs)) @ ws1 @ 0x7D # rest
      = ws0 @ QuoteJSONString k @ 0x3A # sp @ t @ ?tail"
    unfolding xs x by simp
  have p: "parse_value n' (sp @ t @ ?tail) = Some (v, ?tail)"
    using cons.prems(1) x n(2) spw number_end_comma by (intro parsesD [of m]) auto
  have s: "skip_ws ?tail = ?tail"
    by (simp add: skip_ws_Cons is_ws_def)
  have ih: "parse_members n' (ws0 @ join (0x2C # ws0) (map ?f xs) @ ws1 @ 0x7D # rest)
      = Some (map (\<lambda>(k, t, v). (k, v)) xs, rest)"
    using cons.prems(1) n(3) by (intro cons.IH) auto
  show ?case
    unfolding n j
    using parse_members_step [OF assms(1) p assms(3), of k] s ih x by simp
qed

lemma parse_elements_join:
  assumes "all_ws ws0" "all_ws ws1"
  shows "tvs \<noteq> [] \<Longrightarrow> \<forall>(t, v) \<in> set tvs. parses m t v \<Longrightarrow> m + length tvs \<le> n
    \<Longrightarrow> parse_elements n (ws0 @ join (0x2C # ws0) (map fst tvs) @ ws1 @ 0x5D # rest)
        = Some (map snd tvs, rest)"
proof (induction tvs arbitrary: n rule: list_nonempty_induct)
  case (single x)
  obtain t v where x: "x = (t, v)" by (cases x) auto
  from single obtain n' where n: "n = Suc n'" "m \<le> n'" by (cases n) auto
  have p: "parse_value n' (ws0 @ t @ ws1 @ 0x5D # rest) = Some (v, ws1 @ 0x5D # rest)"
    using single(1) x n(2) assms(1) number_end_ws [OF assms(2)] by (intro parsesD [of m]) auto
  have s: "skip_ws (ws1 @ 0x5D # rest) = 0x5D # rest"
    using assms(2) by (simp add: skip_ws_skip is_ws_def)
  show ?case
    unfolding n using p s x by simp
next
  case (cons x xs)
  obtain t v where x: "x = (t, v)" by (cases x) auto
  from cons.prems obtain n' where n: "n = Suc n'" "m \<le> n'" "m + length xs \<le> n'"
    by (cases n) auto
  obtain y ys where xs: "xs = y # ys" using cons.hyps by (cases xs) auto
  let ?tail = "0x2C # ws0 @ join (0x2C # ws0) (map fst xs) @ ws1 @ 0x5D # rest"
  have j: "ws0 @ join (0x2C # ws0) (map fst (x # xs)) @ ws1 @ 0x5D # rest = ws0 @ t @ ?tail"
    unfolding xs x by simp
  have p: "parse_value n' (ws0 @ t @ ?tail) = Some (v, ?tail)"
    using cons.prems(1) x n(2) assms(1) number_end_comma by (intro parsesD [of m]) auto
  have s: "skip_ws ?tail = ?tail"
    by (simp add: skip_ws_Cons is_ws_def)
  have ih: "parse_elements n' (ws0 @ join (0x2C # ws0) (map fst xs) @ ws1 @ 0x5D # rest)
      = Some (map snd xs, rest)"
    using cons.prems(1) n(3) by (intro cons.IH) auto
  show ?case
    unfolding n j using p s ih x by simp
qed

lemma join_Cons: "join sep (x # xs) = x @ (if xs = [] then [] else sep @ join sep xs)"
  by (cases xs) simp_all

lemma length_join: "sum_list (map length xs) \<le> length (join sep xs)"
  by (induction sep xs rule: join.induct) simp_all

lemma property_form:
  "property gap k t = QuoteJSONString k @ 0x3A # (if gap = [] then [] else [0x20]) @ t"
  by (simp add: property_def)

lemma parses_object:
  assumes "kvs \<noteq> []" "\<forall>(k, t, v) \<in> set kvs. parses m t v" "all_ws gap" "all_ws stepback"
  shows "parses (Suc (m + length kvs))
           (wrap_partial gap stepback 0x7B 0x7D (map (\<lambda>(k, t, v). property gap k t) kvs))
           (JObject (map (\<lambda>(k, t, v). (k, v)) kvs))"
  unfolding parses_def
proof (intro allI impI)
  fix n :: nat and ws rest :: js_string
  assume n: "Suc (m + length kvs) \<le> n" and ws: "all_ws ws" and "number_end rest"
  then obtain n' where n': "n = Suc n'" "m + length kvs \<le> n'" by (cases n) auto
  define sp :: js_string where "sp = (if gap = [] then [] else [0x20])"
  have sp: "sp = [] \<or> sp = [0x20]" by (simp add: sp_def)
  let ?f = "\<lambda>(k, t, v). QuoteJSONString k @ 0x3A # sp @ t"
  have f: "map (\<lambda>(k, t, v). property gap k t) kvs = map ?f kvs"
    by (simp add: property_form sp_def)
  have ne: "map ?f kvs \<noteq> []" using assms(1) by simp
  obtain ws0 ws1 where
    w: "wrap_partial gap stepback 0x7B 0x7D (map ?f kvs)
         = 0x7B # ws0 @ join (0x2C # ws0) (map ?f kvs) @ ws1 @ [0x7D]"
    and a: "all_ws ws0 \<and> all_ws ws1"
    using wrap_partial_form [OF ne, of gap stepback "0x7B" "0x7D"] assms(3,4) by metis
  let ?r = "ws0 @ join (0x2C # ws0) (map ?f kvs) @ ws1 @ 0x7D # rest"
  obtain x xs where kv: "kvs = x # xs" using assms(1) by (cases kvs) auto
  obtain k t v where x: "x = (k, t, v)" by (cases x) auto
  have "\<exists>tl. ?r = ws0 @ 0x22 # tl"
    unfolding kv x by (simp add: join_Cons QuoteJSONString_def)
  then obtain tl' where "?r = ws0 @ 0x22 # tl'" by blast
  then have h: "skip_ws ?r = 0x22 # tl'"
    using a by (simp add: skip_ws_skip is_ws_def)
  have s: "skip_ws (ws @ 0x7B # ?r) = 0x7B # ?r"
    using ws by (simp add: skip_ws_skip is_ws_def)
  have p: "parse_members n' ?r = Some (map (\<lambda>(k, t, v). (k, v)) kvs, rest)"
    using a sp assms(1,2) n'(2) by (intro parse_members_join) auto
  show "parse_value n (ws @ wrap_partial gap stepback 0x7B 0x7D
            (map (\<lambda>(k, t, v). property gap k t) kvs) @ rest)
        = Some (JObject (map (\<lambda>(k, t, v). (k, v)) kvs), rest)"
    unfolding n' f w using s h p by simp
qed

lemma parses_array:
  assumes "tvs \<noteq> []" "\<forall>(t, v) \<in> set tvs. parses m t v" "all_ws gap" "all_ws stepback"
    and "\<forall>(t, v) \<in> set tvs. \<exists>tl. t = 0x7B # tl"
  shows "parses (Suc (m + length tvs))
           (wrap_partial gap stepback 0x5B 0x5D (map fst tvs)) (JArray (map snd tvs))"
  unfolding parses_def
proof (intro allI impI)
  fix n :: nat and ws rest :: js_string
  assume n: "Suc (m + length tvs) \<le> n" and ws: "all_ws ws" and "number_end rest"
  then obtain n' where n': "n = Suc n'" "m + length tvs \<le> n'" by (cases n) auto
  have ne: "map fst tvs \<noteq> []" using assms(1) by simp
  obtain ws0 ws1 where
    w: "wrap_partial gap stepback 0x5B 0x5D (map fst tvs)
         = 0x5B # ws0 @ join (0x2C # ws0) (map fst tvs) @ ws1 @ [0x5D]"
    and a: "all_ws ws0 \<and> all_ws ws1"
    using wrap_partial_form [OF ne, of gap stepback "0x5B" "0x5D"] assms(3,4) by metis
  let ?r = "ws0 @ join (0x2C # ws0) (map fst tvs) @ ws1 @ 0x5D # rest"
  obtain x xs where tv: "tvs = x # xs" using assms(1) by (cases tvs) auto
  obtain t v where x: "x = (t, v)" by (cases x) auto
  obtain tl0 where t: "t = 0x7B # tl0" using assms(5) tv x by auto
  have "\<exists>tl. ?r = ws0 @ 0x7B # tl"
    unfolding tv x t by (simp add: join_Cons)
  then obtain tl' where "?r = ws0 @ 0x7B # tl'" by blast
  then have h: "skip_ws ?r = 0x7B # tl'"
    using a by (simp add: skip_ws_skip is_ws_def)
  have s: "skip_ws (ws @ 0x5B # ?r) = 0x5B # ?r"
    using ws by (simp add: skip_ws_skip is_ws_def)
  have p: "parse_elements n' ?r = Some (map snd tvs, rest)"
    using a assms(1,2) n'(2) by (intro parse_elements_join) auto
  show "parse_value n (ws @ wrap_partial gap stepback 0x5B 0x5D (map fst tvs) @ rest)
        = Some (JArray (map snd tvs), rest)"
    unfolding n' w using s h p by simp
qed

lemma prize_properties_entries:
  "prize_properties gap p = map (\<lambda>(k, t, v). property gap k t) (prize_entries p)"
  by (simp add: prize_properties_def prize_entries_def split: option.splits)

lemma prize_entries_parse: "\<forall>(k, t, v) \<in> set (prize_entries p). parses (Suc 0) t v"
  by (auto simp: prize_entries_def parses_string parses_number split: option.splits)

lemma length_prize_entries: "prize_entries p \<noteq> [] \<and> length (prize_entries p) \<le> 8"
  by (simp add: prize_entries_def split: option.splits)

lemma parses_prize:
  assumes "all_ws gap" "all_ws stepback"
  shows "parses 10 (stringify_prize gap stepback p) (json_of_prize p)"
proof -
  have "parses (Suc (Suc 0 + length (prize_entries p)))
      (stringify_prize gap stepback p) (json_of_prize p)"
    unfolding stringify_prize_def json_of_prize_def prize_properties_entries
    using length_prize_entries [of p] prize_entries_parse [of p] assms
    by (intro parses_object) auto
  then show ?thesis
    using length_prize_entries [of p] by (elim parses_mono) simp
qed

lemma stringify_prize_head: "\<exists>tl. stringify_prize gap stepback p = 0x7B # tl"
proof -
  have "prize_properties gap p \<noteq> []" by (simp add: prize_properties_def)
  then show ?thesis
    by (simp add: stringify_prize_def wrap_partial_def Let_def)
qed

lemma length_property: "5 \<le> length (property gap k (QuoteJSONString s))"
  by (simp add: property_def QuoteJSONString_def)

lemma length_stringify_prize: "9 \<le> length (stringify_prize gap stepback p)"
proof -
  have ne: "prize_properties gap p \<noteq> []" by (simp add: prize_properties_def)
  have "10 \<le> length (property gap (js ''id'') (QuoteJSONString (prize_id p)))
      + length (property gap (js ''name'') (QuoteJSONString (name p)))"
    using length_property [of gap "js ''id''" "prize_id p"]
      length_property [of gap "js ''name''" "name p"] by linarith
  then have s: "10 \<le> sum_list (map length (prize_properties gap p))"
    by (simp add: prize_properties_def)
  have j: "sum_list (map length (prize_properties gap p)) \<le> length (join sep (prize_properties gap p))" for sep
    by (rule length_join)
  show ?thesis
  proof (cases "gap = []")
    case True
    then show ?thesis
      unfolding stringify_prize_def wrap_partial_def Let_def
      using ne s j [of "[0x2C]"] by simp
  next
    case False
    then show ?thesis
      unfolding stringify_prize_def wrap_partial_def Let_def
      using ne s j [of "[0x2C, 0x0A] @ stepback @ gap"] by simp
  qed
qed

lemma length_wrap_partial:
  "2 + sum_list (map length partial) \<le> length (wrap_partial gap stepback opening closing partial)"
proof -
  have j: "sum_list (map length partial) \<le> length (join sep partial)" for sep
    by (rule length_join)
  show ?thesis
    unfolding wrap_partial_def Let_def
    using j [of "[0x2C]"] j [of "[0x2C, 0x0A] @ stepback @ gap"] by simp
qed

lemma sum_list_lower: "(\<forall>x \<in> set xs. c \<le> f x) \<Longrightarrow> c * length xs \<le> sum_list (map f xs)"
  by (induction xs) auto

lemma length_stringify_prizes: "2 + 9 * length ps \<le> length (stringify_prizes gap ps)"
proof -
  have "9 * length ps \<le> sum_list (map (\<lambda>p. length (stringify_prize gap gap p)) ps)"
    by (intro sum_list_lower) (simp add: length_stringify_prize)
  then have "2 + 9 * length ps \<le> 2 + sum_list (map length (map (stringify_prize gap gap) ps))"
    by (simp add: comp_def)
  also have "\<dots> \<le> length (stringify_prizes gap ps)"
    unfolding stringify_prizes_def by (rule length_wrap_partial)
  finally show ?thesis .
qed

lemma parses_prizes:
  assumes "all_ws gap" "ps \<noteq> []"
  shows "parses (Suc (10 + length ps)) (stringify_prizes gap ps) (JArray (map json_of_prize ps))"
proof -
  define tvs where "tvs = map (\<lambda>p. (stringify_prize gap gap p, json_of_prize p)) ps"
  have m: "map fst tvs = map (stringify_prize gap gap) ps" "map snd tvs = map json_of_prize ps"
    "length tvs = length ps" "tvs \<noteq> []"
    using assms(2) by (simp_all add: tvs_def comp_def)
  have p: "\<forall>(t, v) \<in> set tvs. parses 10 t v"
    using assms(1) by (auto simp: tvs_def parses_prize)
  have h: "\<forall>(t, v) \<in> set tvs. \<exists>tl. t = 0x7B # tl"
    using stringify_prize_head by (auto simp: tvs_def)
  have "parses (Suc (10 + length tvs)) (wrap_partial gap [] 0x5B 0x5D (map fst tvs))
      (JArray (map snd tvs))"
    using m(4) p assms(1) h by (intro parses_array) simp_all
  then show ?thesis
    unfolding m stringify_prizes_def .
qed

lemma JSON_parse_stringify_prizes:
  assumes "all_ws gap"
  shows "JSON_parse (stringify_prizes gap ps) = Some (JArray (map json_of_prize ps))"
proof (cases "ps = []")
  case True
  have "stringify_prizes gap [] = [0x5B, 0x5D]"
    by (simp add: stringify_prizes_def wrap_partial_def)
  then show ?thesis
    using True by (simp add: JSON_parse_def skip_ws_def is_ws_def)
next
  case False
  then have "1 \<le> length ps" by (cases ps) auto
  then have "Suc (10 + length ps) \<le> Suc (2 + 9 * length ps)" by simp
  also have "\<dots> \<le> Suc (length (stringify_prizes gap ps))"
    using length_stringify_prizes [of ps gap] by simp
  finally have n: "Suc (10 + length ps) \<le> Suc (length (stringify_prizes gap ps))" .
  have e: "number_end []" by (simp add: number_end_def)
  from parsesD [OF parses_prizes [OF assms False] n _ e, of "[]"]
  have "parse_value (Suc (length (stringify_prizes gap ps))) (stringify_prizes gap ps)
      = Some (JArray (map json_of_prize ps), [])"
    by simp
  then show ?thesis
    by (simp add: JSON_parse_def skip_ws_def)
qed

lemma js_keys:
  "js ''id'' = [0x69, 0x64]"
  "js ''name'' = [0x6E, 0x61, 0x6D, 0x65]"
  "js ''quantity'' = [0x71, 0x75, 0x61, 0x6E, 0x74, 0x69, 0x74, 0x79]"
  "js ''acquisitionDate'' = [0x61, 0x63, 0x71, 0x75, 0x69, 0x73, 0x69, 0x74, 0x69, 0x6F, 0x6E,
     0x44, 0x61, 0x74, 0x65]"
  "js ''category'' = [0x63, 0x61, 0x74, 0x65, 0x67, 0x6F, 0x72, 0x79]"
  "js ''manufacturer'' = [0x6D, 0x61, 0x6E, 0x75, 0x66, 0x61, 0x63, 0x74, 0x75, 0x72, 0x65, 0x72]"
  "js ''photo'' = [0x70, 0x68, 0x6F, 0x74, 0x6F]"
  "js ''notes'' = [0x6E, 0x6F, 0x74, 0x65, 0x73]"
  by (simp_all add: js_def)

lemma prize_of_json_of_prize:
  assumes "\<bar>quantity p\<bar> \<le> 9007199254740992"
  shows "prize_of_json (json_of_prize p) = Some p"
proof -
  have q: "\<bar>rat_of_int (quantity p)\<bar> \<le> 9007199254740992"
  proof -
    have "\<bar>rat_of_int (quantity p)\<bar> = rat_of_int \<bar>quantity p\<bar>" by simp
    also have "\<dots> \<le> rat_of_int 9007199254740992" using assms by (simp only: of_int_le_iff)
    finally show ?thesis by simp
  qed
  let ?m = "map (\<lambda>(k, t, v). (k, v)) (prize_entries p)"
  have g1: "get_string ?m (js ''id'') = Some (prize_id p)"
    and g2: "get_string ?m (js ''name'') = Some (name p)"
    and g4: "get_string ?m (js ''acquisitionDate'') = Some (acquisitionDate p)"
    and g5: "get_string ?m (js ''category'') = Some (category p)"
    and g6: "get_string ?m (js ''manufacturer'') = Some (manufacturer p)"
    by (cases "photo p"; cases "prize_notes p";
        simp add: prize_entries_def get_string_def obj_get_def js_keys)+
  have g3: "get_integer ?m (js ''quantity'') = Some (quantity p)"
    using q by (cases "photo p"; cases "prize_notes p";
        simp add: prize_entries_def get_integer_def obj_get_def js_keys)
  have g7: "get_optional_string ?m (js ''photo'') = Some (photo p)"
    and g8: "get_optional_string ?m (js ''notes'') = Some (prize_notes p)"
    by (cases "photo p"; cases "prize_notes p";
        simp add: prize_entries_def get_optional_string_def obj_get_def js_keys)+
  show ?thesis
    unfolding prize_of_json_def json_of_prize_def
    by (simp add: g1 g2 g3 g4 g5 g6 g7 g8)
qed

lemma prizes_of_json_of_prizes:
  "\<forall>p \<in> set ps. \<bar>quantity p\<bar> \<le> 9007199254740992
     \<Longrightarrow> prizes_of_json (map json_of_prize ps) = Some ps"
  by (induction ps) (simp_all add: prize_of_json_of_prize)

section \<open>Import and export\<close>

text \<open>
  C4. When the text of the selected file is not JSON, the import ends in the catch branch
  with the read-error alert; when it is JSON but its value is not an array, the import
  ends with the invalid-format alert. In both cases the state is the one before the
  import with the tools menu closed: the collection, the dirty flag and the storage are
  unchanged, whatever the answer to the confirmation would have been.
\<close>

theorem import_rejects_malformed:
  "(JSON_parse content = None
      \<longrightarrow> handleImport (Some content) confirmed s = Rejected ReadError (s\<lparr>showTools := False\<rparr>))
   \<and> (\<forall>v. JSON_parse content = Some v \<and> (\<forall>items. v \<noteq> JArray items)
      \<longrightarrow> handleImport (Some content) confirmed s = Rejected InvalidFormat (s\<lparr>showTools := False\<rparr>))
   \<and> prizes (s\<lparr>showTools := False\<rparr>) = prizes s
   \<and> isDirty (s\<lparr>showTools := False\<rparr>) = isDirty s
   \<and> localStorage (s\<lparr>showTools := False\<rparr>) = localStorage s"
  by (auto simp: handleImport_def import_onload_def split: json.splits)



theorem import_rejects_malformed_witness:
  "JSON_parse (js ''not an array'') = None
   \<and> handleImport (Some (js ''not an array'')) True store_AB
       = Rejected ReadError (store_AB\<lparr>showTools := False\<rparr>)
   \<and> JSON_parse (js ''{}'') = Some (JObject [])
   \<and> handleImport (Some (js ''{}'')) True store_AB
       = Rejected InvalidFormat (store_AB\<lparr>showTools := False\<rparr>)"
proof -
  have p1: "JSON_parse (js ''not an array'') = None"
    by code_simp
  have p2: "JSON_parse (js ''{}'') = Some (JObject [])"
    by code_simp
  have p3: "JSON_parse (js ''{}'') = Some (JObject []) \<and> (\<forall>items. JObject [] \<noteq> JArray items)"
    using p2 by simp
  note r1 = import_rejects_malformed [of "js ''not an array''" True store_AB,
      THEN conjunct1, THEN mp, OF p1]
  note r2 = import_rejects_malformed [of "js ''{}''" True store_AB,
      THEN conjunct2, THEN conjunct1, THEN spec, THEN mp, OF p3]
  show ?thesis
    by (intro conjI p1 p2 r1 r2)
qed

text \<open>
  C3. For a collection whose quantities are integers that a double holds exactly (of
  magnitude up to \<open>2^53\<close>), \<open>JSON.parse\<close> reads the text that \<open>handleExport\<close> writes as the
  array of the records, field by field, and \<open>handleImport\<close> of that text, once confirmed,
  replaces the collection by the exported one: every field of every record and the order
  of the records are those of the export.
\<close>

theorem export_import_roundtrip:
  assumes "\<forall>p \<in> set (prizes s0). \<bar>quantity p\<bar> \<le> 9007199254740992"
  shows "JSON_parse (JSON_stringify_pretty (prizes s0)) = Some (JArray (map json_of_prize (prizes s0)))
    \<and> prizes_of_json (map json_of_prize (prizes s0)) = Some (prizes s0)
    \<and> handleImport (Some (snd (fst (handleExport today s0)))) True s
        = Imported (s\<lparr>showTools := False, prizes := prizes s0, isDirty := True\<rparr>)"
proof -
  have p: "JSON_parse (JSON_stringify_pretty (prizes s0))
      = Some (JArray (map json_of_prize (prizes s0)))"
    unfolding JSON_stringify_pretty_def
    by (rule JSON_parse_stringify_prizes) (simp add: is_ws_def)
  have t: "prizes_of_json (map json_of_prize (prizes s0)) = Some (prizes s0)"
    using assms by (rule prizes_of_json_of_prizes)
  have "handleImport (Some (JSON_stringify_pretty (prizes s0))) True s
      = Imported (s\<lparr>showTools := False, prizes := prizes s0, isDirty := True\<rparr>)"
    by (simp add: handleImport_def import_onload_def p t)
  then show ?thesis
    using p t by (simp add: handleExport_def)
qed

theorem export_import_roundtrip_witness:
  "prizes store_AB = [prize_A, prize_B]
   \<and> \<bar>quantity prize_A\<bar> \<le> 9007199254740992 \<and> \<bar>quantity prize_B\<bar> \<le> 9007199254740992
   \<and> handleImport (Some (snd (fst (handleExport (js ''2024-03-01'') store_AB)))) True
        (store_AB\<lparr>prizes := []\<rparr>)
       = Imported (store_AB\<lparr>prizes := [prize_A, prize_B], isDirty := True\<rparr>)"
proof -
  have h: "\<forall>p \<in> set (prizes store_AB). \<bar>quantity p\<bar> \<le> 9007199254740992"
    by (simp add: store_AB_def prize_A_def prize_B_def)
  note r = export_import_roundtrip [OF h, of "js ''2024-03-01''" "store_AB\<lparr>prizes := []\<rparr>",
      THEN conjunct2, THEN conjunct2]
  have e: "store_AB\<lparr>prizes := [], showTools := False, prizes := prizes store_AB, isDirty := True\<rparr>
      = store_AB\<lparr>prizes := [prize_A, prize_B], isDirty := True\<rparr>"
    by (simp add: store_AB_def)
  have q: "prizes store_AB = [prize_A, prize_B]"
    "\<bar>quantity prize_A\<bar> \<le> 9007199254740992" "\<bar>quantity prize_B\<bar> \<le> 9007199254740992"
    by (simp_all add: store_AB_def prize_A_def prize_B_def)
  show ?thesis
    using q r unfolding e by simp
qed


section \<open>Properties of the sorted view\<close>

lemma set_insert_by [simp]: "set (insert_by cmp x ys) = insert x (set ys)"
  by (induction ys) auto

lemma length_insert_by [simp]: "length (insert_by cmp x ys) = Suc (length ys)"
  by (induction ys) auto

lemma distinct_insert_by [simp]: "distinct (insert_by cmp x ys) \<longleftrightarrow> x \<notin> set ys \<and> distinct ys"
  by (induction ys) auto

lemma sort_by_simps [simp]:
  "sort_by cmp [] = []" "sort_by cmp (x # xs) = insert_by cmp x (sort_by cmp xs)"
  by (simp_all add: sort_by_def)

lemma set_sort_by [simp]: "set (sort_by cmp xs) = set xs"
  by (induction xs) simp_all

lemma distinct_sort_by [simp]: "distinct (sort_by cmp xs) \<longleftrightarrow> distinct xs"
  by (induction xs) simp_all

lemma sorted_insert_by:
  assumes tot: "\<And>a b. a \<in> S \<Longrightarrow> b \<in> S \<Longrightarrow> \<not> cmp a b \<le> 0 \<Longrightarrow> cmp b a \<le> 0"
    and tr: "\<And>a b c. a \<in> S \<Longrightarrow> b \<in> S \<Longrightarrow> c \<in> S \<Longrightarrow> cmp a b \<le> 0 \<Longrightarrow> cmp b c \<le> 0
               \<Longrightarrow> cmp a c \<le> 0"
  shows "x \<in> S \<Longrightarrow> set ys \<subseteq> S \<Longrightarrow> sorted_wrt (\<lambda>a b. cmp a b \<le> 0) ys
    \<Longrightarrow> sorted_wrt (\<lambda>a b. cmp a b \<le> 0) (insert_by cmp x ys)"
proof (induction ys)
  case Nil
  then show ?case by simp
next
  case (Cons y ys)
  have y: "y \<in> S" and ys: "set ys \<subseteq> S" using Cons.prems(2) by simp_all
  have s: "sorted_wrt (\<lambda>a b. cmp a b \<le> 0) ys" and yz: "\<forall>z \<in> set ys. cmp y z \<le> 0"
    using Cons.prems(3) by simp_all
  show ?case
  proof (cases "cmp x y \<le> 0")
    case True
    have "\<forall>z \<in> set ys. cmp x z \<le> 0"
    proof
      fix z assume z: "z \<in> set ys"
      then have "z \<in> S" using ys by blast
      moreover have "cmp y z \<le> 0" using yz z by blast
      ultimately show "cmp x z \<le> 0" using tr [OF Cons.prems(1) y _ True] by blast
    qed
    with True Cons.prems(3) show ?thesis by simp
  next
    case False
    have yx: "cmp y x \<le> 0" using tot [OF Cons.prems(1) y False] .
    have ih: "sorted_wrt (\<lambda>a b. cmp a b \<le> 0) (insert_by cmp x ys)"
      using Cons.IH [OF Cons.prems(1) ys s] .
    have "\<forall>z \<in> set (insert_by cmp x ys). cmp y z \<le> 0"
      using yx yz by simp
    with False ih show ?thesis by simp
  qed
qed

lemma sorted_sort_by:
  assumes tot: "\<And>a b. a \<in> S \<Longrightarrow> b \<in> S \<Longrightarrow> \<not> cmp a b \<le> 0 \<Longrightarrow> cmp b a \<le> 0"
    and tr: "\<And>a b c. a \<in> S \<Longrightarrow> b \<in> S \<Longrightarrow> c \<in> S \<Longrightarrow> cmp a b \<le> 0 \<Longrightarrow> cmp b c \<le> 0
               \<Longrightarrow> cmp a c \<le> 0"
  shows "set xs \<subseteq> S \<Longrightarrow> sorted_wrt (\<lambda>a b. cmp a b \<le> 0) (sort_by cmp xs)"
proof (induction xs)
  case Nil
  show ?case by simp
next
  case (Cons x xs)
  then have x: "x \<in> S" and xs: "set xs \<subseteq> S" by simp_all
  have "sorted_wrt (\<lambda>a b. cmp a b \<le> 0) (insert_by cmp x (sort_by cmp xs))"
  proof (rule sorted_insert_by [where S = S])
    show "set (sort_by cmp xs) \<subseteq> S" using xs by simp
    show "sorted_wrt (\<lambda>a b. cmp a b \<le> 0) (sort_by cmp xs)" using Cons.IH xs by simp
  qed (use tot tr x in blast)+
  then show ?case by simp
qed

lemma sorted_wrt_unique:
  assumes anti: "\<And>x y. x \<in> S \<Longrightarrow> y \<in> S \<Longrightarrow> x \<noteq> y \<Longrightarrow> R x y \<Longrightarrow> R y x \<Longrightarrow> False"
  shows "sorted_wrt R xs \<Longrightarrow> sorted_wrt R ys \<Longrightarrow> distinct xs \<Longrightarrow> distinct ys
    \<Longrightarrow> set xs = set ys \<Longrightarrow> set xs \<subseteq> S \<Longrightarrow> xs = ys"
proof (induction xs arbitrary: ys)
  case Nil
  then show ?case by simp
next
  case (Cons x xs)
  from Cons.prems(5) have "ys \<noteq> []" by auto
  then obtain y ys' where ys: "ys = y # ys'" by (cases ys) simp_all
  have sx: "\<forall>z \<in> set xs. R x z" and sxs: "sorted_wrt R xs"
    using Cons.prems(1) by simp_all
  have sy: "\<forall>z \<in> set ys'. R y z" and sys: "sorted_wrt R ys'"
    using Cons.prems(2) ys by simp_all
  have dx: "x \<notin> set xs" "distinct xs" using Cons.prems(3) by simp_all
  have dy: "y \<notin> set ys'" "distinct ys'" using Cons.prems(4) ys by simp_all
  have st: "insert x (set xs) = insert y (set ys')" using Cons.prems(5) ys by simp
  have xS: "x \<in> S" and xsS: "set xs \<subseteq> S" using Cons.prems(6) by simp_all
  have xy: "x = y"
  proof (rule ccontr)
    assume ne: "x \<noteq> y"
    with st have "x \<in> set ys'" "y \<in> set xs" by auto
    with sx sy have "R y x" "R x y" by blast+
    moreover have "y \<in> S" using \<open>y \<in> set xs\<close> xsS by blast
    ultimately show False using anti [OF xS _ ne] by blast
  qed
  have "set xs = set ys'"
    using st dx(1) dy(1) xy by auto
  then have "xs = ys'"
    using Cons.IH [OF sxs sys dx(2) dy(2) _ xsS] by blast
  with ys xy show ?case by simp
qed

lemma no_ties_distinct:
  assumes "consistent_on lc (name ` set ps)" "no_ties lc ps"
  shows "distinct ps"
proof (rule ccontr)
  assume "\<not> distinct ps"
  then obtain i j where ij: "i < length ps" "j < length ps" "i \<noteq> j" "ps ! i = ps ! j"
    by (auto simp: distinct_conv_nth)
  let ?n = "name (ps ! i)"
  have "?n \<in> name ` set ps" using ij(1) by simp
  with assms(1) have "lc ?n ?n < 0 \<longleftrightarrow> 0 < lc ?n ?n"
    unfolding consistent_on_def by blast
  then have "lc ?n ?n = 0" by linarith
  moreover have "lc ?n (name (ps ! j)) \<noteq> 0"
    using assms(2) ij(1,2,3) unfolding no_ties_def by blast
  ultimately show False using ij(4) by simp
qed

lemma no_ties_strict:
  assumes "no_ties lc ps" "x \<in> set ps" "y \<in> set ps" "x \<noteq> y"
  shows "lc (name x) (name y) \<noteq> 0"
proof -
  from assms(2,3) obtain i j where "i < length ps" "ps ! i = x" "j < length ps" "ps ! j = y"
    by (metis in_set_conv_nth)
  moreover from this assms(4) have "i \<noteq> j" by auto
  ultimately show ?thesis using assms(1) unfolding no_ties_def by blast
qed

text \<open>
  C9. When the comparison is consistent on the names of the collection and no two records
  have names that compare as equal, the view sorted by name descending is the reverse of
  the view sorted by name ascending, for the same search term and category.
\<close>

theorem name_sort_reversed:
  assumes "consistent_on localeCompare (name ` set ps)" "no_ties localeCompare ps"
  shows "filteredAndSortedPrizes toLowerCase localeCompare getTime ps searchTerm selectedCategory NameDesc
    = rev (filteredAndSortedPrizes toLowerCase localeCompare getTime ps searchTerm selectedCategory NameAsc)"
proof -
  define filtered where "filtered = filter (\<lambda>prize.
      let nameMatch = sublist (toLowerCase searchTerm) (toLowerCase (name prize));
          categoryMatch = (selectedCategory = cat_all \<or> category prize = selectedCategory)
      in nameMatch \<and> categoryMatch) ps"
  define asc :: "prize \<Rightarrow> prize \<Rightarrow> int" where "asc = (\<lambda>a b. localeCompare (name a) (name b))"
  define desc :: "prize \<Rightarrow> prize \<Rightarrow> int" where "desc = (\<lambda>a b. localeCompare (name b) (name a))"
  have sub: "set filtered \<subseteq> set ps" by (auto simp: filtered_def)
  have anti: "localeCompare (name a) (name b) < 0 \<longleftrightarrow> 0 < localeCompare (name b) (name a)"
    if "a \<in> set ps" "b \<in> set ps" for a b
    using assms(1) that unfolding consistent_on_def by blast
  have trans: "localeCompare (name a) (name c) \<le> 0"
    if "a \<in> set ps" "b \<in> set ps" "c \<in> set ps"
      "localeCompare (name a) (name b) \<le> 0" "localeCompare (name b) (name c) \<le> 0" for a b c
    using assms(1) that unfolding consistent_on_def by blast
  have d: "distinct filtered"
    using no_ties_distinct [OF assms] by (simp add: filtered_def)
  have s_asc: "sorted_wrt (\<lambda>a b. asc a b \<le> 0) (sort_by asc filtered)"
  proof (rule sorted_sort_by [where S = "set ps"])
    fix a b assume "a \<in> set ps" "b \<in> set ps" "\<not> asc a b \<le> 0"
    then show "asc b a \<le> 0" using anti [of b a] by (simp add: asc_def)
  next
    fix a b c assume "a \<in> set ps" "b \<in> set ps" "c \<in> set ps" "asc a b \<le> 0" "asc b c \<le> 0"
    then show "asc a c \<le> 0" using trans [of a b c] by (simp add: asc_def)
  qed (rule sub)
  have s_desc: "sorted_wrt (\<lambda>a b. desc a b \<le> 0) (sort_by desc filtered)"
  proof (rule sorted_sort_by [where S = "set ps"])
    fix a b assume "a \<in> set ps" "b \<in> set ps" "\<not> desc a b \<le> 0"
    then show "desc b a \<le> 0" using anti [of b a] by (simp add: desc_def)
  next
    fix a b c assume "a \<in> set ps" "b \<in> set ps" "c \<in> set ps" "desc a b \<le> 0" "desc b c \<le> 0"
    then show "desc a c \<le> 0" using trans [of c b a] by (simp add: desc_def)
  qed (rule sub)
  have s_rev: "sorted_wrt (\<lambda>a b. desc a b \<le> 0) (rev (sort_by asc filtered))"
    using s_asc by (simp add: sorted_wrt_rev asc_def desc_def)
  have "sort_by desc filtered = rev (sort_by asc filtered)"
  proof (rule sorted_wrt_unique [where S = "set ps" and R = "\<lambda>a b. desc a b \<le> 0"])
    fix x y assume xy: "x \<in> set ps" "y \<in> set ps" "x \<noteq> y" "desc x y \<le> 0" "desc y x \<le> 0"
    have "localeCompare (name x) (name y) \<noteq> 0"
      using no_ties_strict [OF assms(2) xy(1,2,3)] .
    with xy(5) have "localeCompare (name x) (name y) < 0" by (simp add: desc_def)
    then have "0 < localeCompare (name y) (name x)" using anti [OF xy(1,2)] by simp
    with xy(4) show False by (simp add: desc_def)
  qed (use s_desc s_rev d sub in simp_all)
  then show ?thesis
    by (simp add: filteredAndSortedPrizes_def filtered_def asc_def desc_def)
qed


theorem name_sort_reversed_witness:
  "consistent_on compare_length (name ` set [prize_BB, prize_A])
   \<and> no_ties compare_length [prize_BB, prize_A]
   \<and> filteredAndSortedPrizes (\<lambda>s. s) compare_length (\<lambda>d. None) [prize_BB, prize_A] [] cat_all NameAsc
       = [prize_A, prize_BB]
   \<and> filteredAndSortedPrizes (\<lambda>s. s) compare_length (\<lambda>d. None) [prize_BB, prize_A] [] cat_all NameDesc
       = [prize_BB, prize_A]"
proof -
  have c: "consistent_on compare_length (name ` set [prize_BB, prize_A])"
    by (simp add: consistent_on_def compare_length_def)
  have n: "no_ties compare_length [prize_BB, prize_A]"
    by (simp add: no_ties_def compare_length_def prize_BB_def prize_A_def prize_B_def js_def
        nth_Cons' )
  have a: "filteredAndSortedPrizes (\<lambda>s. s) compare_length (\<lambda>d. None) [prize_BB, prize_A] [] cat_all NameAsc
       = [prize_A, prize_BB]"
    by (simp add: filteredAndSortedPrizes_def compare_length_def prize_BB_def prize_A_def
        prize_B_def js_def)
  note r = name_sort_reversed [OF c n, of "\<lambda>s. s" "\<lambda>d. None" "[]" cat_all]
  show ?thesis
    using c n a r by simp
qed

section \<open>Properties of the edit form\<close>




section \<open>Properties of the photo ingestion\<close>

lemma resizeImage_never_rejects: "resizeImage decode toDataURL base64Str \<noteq> Thrown"
  by (simp add: resizeImage_def split: option.splits prod.splits)

lemma handlePhotoChange_decode_failure:
  "decode base64 = None
     \<Longrightarrow> handlePhotoChange decode toDataURL (Some base64) f = f\<lparr>isProcessingImage := True\<rparr>"
  by (simp add: handlePhotoChange_def resizeImage_def)

lemma handlePhotoChange_encode_failure:
  "decode base64 = Some (w, h) \<Longrightarrow> toDataURL base64 (canvas_dims w h) = None
     \<Longrightarrow> handlePhotoChange decode toDataURL (Some base64) f = f\<lparr>isProcessingImage := True\<rparr>"
  by (simp add: handlePhotoChange_def resizeImage_def)

text \<open>
  C8 on the code. For a file that is not an image the decode step fails, the promise of
  \<open>resizeImage\<close> never settles, and the handler never reaches its \<open>catch\<close> and \<open>finally\<close>
  blocks: the photo is not set to the raw input, \<open>isProcessingImage\<close> stays set, and
  \<open>handleSubmit\<close> returns without saving. The same holds when drawing or encoding throws
  inside \<open>onload\<close>.
\<close>

theorem photo_failure_blocks_submit:
  "handlePhotoChange no_decode no_encode (Some not_an_image) filled_form
     = filled_form\<lparr>isProcessingImage := True\<rparr>
   \<and> form_photo (handlePhotoChange no_decode no_encode (Some not_an_image) filled_form) = []
   \<and> isProcessingImage (handlePhotoChange no_decode no_encode (Some not_an_image) filled_form)
   \<and> handleSubmit (js ''1700000000000'') None
         (handlePhotoChange no_decode no_encode (Some not_an_image) filled_form) = None
   \<and> handlePhotoChange decode_1200_800 no_encode (Some not_an_image) filled_form
     = filled_form\<lparr>isProcessingImage := True\<rparr>"
proof -
  have d: "no_decode not_an_image = None" by (simp add: no_decode_def)
  have e: "decode_1200_800 not_an_image = Some (1200, 800)"
    "no_encode not_an_image (canvas_dims 1200 800) = None"
    by (simp_all add: decode_1200_800_def no_encode_def)
  have h: "handlePhotoChange no_decode no_encode (Some not_an_image) filled_form
      = filled_form\<lparr>isProcessingImage := True\<rparr>"
    using d by (rule handlePhotoChange_decode_failure)
  have h2: "handlePhotoChange decode_1200_800 no_encode (Some not_an_image) filled_form
      = filled_form\<lparr>isProcessingImage := True\<rparr>"
    using e by (rule handlePhotoChange_encode_failure)
  show ?thesis
    unfolding h h2 by (simp add: filled_form_def initial_form_def handleSubmit_def)
qed

end
